theory Spec2Isabelle
  imports Main "HOL-Library.AList" "HOL-Library.Multiset"
begin

section \<open>Machine integers\<close>

text \<open>
  The envelope's timestamps, the TTLs and the access counter are Go \<open>int64\<close> values.
  They are modelled as \<open>int\<close>, and every addition and subtraction of the source
  goes through \<open>i64\<close>, which wraps its argument into the signed 64-bit range the way
  the machine does. \<open>itemCount\<close>, \<open>MaxL1Size\<close> and slice lengths are Go \<open>int\<close>
  values that count entries held in memory; they are modelled as \<open>int\<close> without
  wrap-around.
\<close>

definition i64 :: "int \<Rightarrow> int" where
  "i64 x = (x + 2 ^ 63) mod 2 ^ 64 - 2 ^ 63"

definition in_i64 :: "int \<Rightarrow> bool" where
  "in_i64 x \<longleftrightarrow> - (2 ^ 63) \<le> x \<and> x < 2 ^ 63"

section \<open>User values and the wire format\<close>

text \<open>
  \<open>CacheItem.Value\<close> is an \<open>interface{}\<close>: a value together with its dynamic type.
  The model covers the scalar dynamic types: \<open>nil\<close>, \<open>bool\<close>, \<open>string\<close> (valid
  UTF-8 text), \<open>int\<close>, \<open>float64\<close> and, as a representative of the types
  \<open>encoding/json\<close> refuses, a channel. \<open>GoFloat64 n\<close> stands for the \<open>float64\<close>
  that the decimal numeral \<open>n\<close> denotes; the cache never computes with it.

  What travels to Redis is a JSON document. The model keeps the document as a tree:
  a scalar, or an object whose members are scalars.
\<close>

datatype go_value =
    GoNil
  | GoBool bool
  | GoString string
  | GoInt int
  | GoFloat64 int
  | GoChan

datatype jscalar = JNull | JBool bool | JNum int | JStr string

datatype json = JScalar jscalar | JObj "(string \<times> jscalar) list"

record CacheItem =
  Value :: go_value
  ExpireTime :: int
  CreateTime :: int
  AccessTime :: int
  AccessCount :: int

text \<open>
  \<open>json.Marshal\<close> on the value: numbers of either kind are written as a JSON number,
  a channel is an unsupported type and makes the whole call fail.
\<close>

fun marshal_value :: "go_value \<Rightarrow> jscalar option" where
  "marshal_value GoNil = Some JNull"
| "marshal_value (GoBool b) = Some (JBool b)"
| "marshal_value (GoString s) = Some (JStr s)"
| "marshal_value (GoInt n) = Some (JNum n)"
| "marshal_value (GoFloat64 n) = Some (JNum n)"
| "marshal_value GoChan = None"

text \<open>
  \<open>json.Unmarshal\<close> into an \<open>interface{}\<close>: the decoder chooses the dynamic type
  from the JSON token alone, and every JSON number becomes a \<open>float64\<close>.
\<close>

fun unmarshal_value :: "jscalar \<Rightarrow> go_value" where
  "unmarshal_value JNull = GoNil"
| "unmarshal_value (JBool b) = GoBool b"
| "unmarshal_value (JStr s) = GoString s"
| "unmarshal_value (JNum n) = GoFloat64 n"

text \<open>The struct tags of \<open>CacheItem\<close> fix the member names and their order.\<close>

definition Marshal :: "CacheItem \<Rightarrow> json option" where
  "Marshal item =
     (case marshal_value (Value item) of
        None \<Rightarrow> None
      | Some jv \<Rightarrow> Some (JObj
          [(''value'', jv),
           (''expire_time'', JNum (ExpireTime item)),
           (''create_time'', JNum (CreateTime item)),
           (''access_time'', JNum (AccessTime item)),
           (''access_count'', JNum (AccessCount item))]))"

text \<open>
  Decoding an \<open>int64\<close> member: an absent or \<open>null\<close> member leaves the zero value, a
  number must fit the type, anything else is a type error.
\<close>

fun unmarshal_int64 :: "jscalar option \<Rightarrow> int option" where
  "unmarshal_int64 None = Some 0"
| "unmarshal_int64 (Some JNull) = Some 0"
| "unmarshal_int64 (Some (JNum n)) = (if in_i64 n then Some n else None)"
| "unmarshal_int64 (Some (JBool b)) = None"
| "unmarshal_int64 (Some (JStr s)) = None"

definition zero_item :: CacheItem where
  "zero_item = \<lparr>Value = GoNil, ExpireTime = 0, CreateTime = 0, AccessTime = 0, AccessCount = 0\<rparr>"

text \<open>
  \<open>json.Unmarshal(jsonData, &item)\<close> with \<open>item\<close> a zero \<open>CacheItem\<close>. A \<open>null\<close>
  document leaves the struct untouched, any other scalar is a type error, and in an object
  the last member of a given name wins.
\<close>

fun Unmarshal :: "json \<Rightarrow> CacheItem option" where
  "Unmarshal (JScalar JNull) = Some zero_item"
| "Unmarshal (JScalar s) = None"
| "Unmarshal (JObj ms) =
     (let m = map_of (rev ms) in
      case (unmarshal_int64 (m ''expire_time''), unmarshal_int64 (m ''create_time''),
            unmarshal_int64 (m ''access_time''), unmarshal_int64 (m ''access_count'')) of
        (Some e, Some c, Some a, Some n) \<Rightarrow>
          Some \<lparr>Value = (case m ''value'' of None \<Rightarrow> GoNil | Some jv \<Rightarrow> unmarshal_value jv),
                ExpireTime = e, CreateTime = c, AccessTime = a, AccessCount = n\<rparr>
      | _ \<Rightarrow> None)"

section \<open>Placement strategies\<close>

text \<open>
  The three strategy types of the source each implement both interfaces, so one datatype
  carries them and the interface assertions inside \<open>HybridStrategy\<close> always succeed.
  The source's methods read the clock themselves; the model passes that reading as
  \<open>now\<close>.
\<close>

datatype Strategy =
    FrequencyBasedStrategy int int int
  | TimeWindowStrategy int int int
  | HybridStrategy "Strategy list" bool

definition NewFrequencyBasedStrategy :: "int \<Rightarrow> int \<Rightarrow> int \<Rightarrow> Strategy" where
  "NewFrequencyBasedStrategy accessThreshold timeWindow idleTime =
     FrequencyBasedStrategy accessThreshold timeWindow idleTime"

fun ShouldPromote :: "Strategy \<Rightarrow> CacheItem \<Rightarrow> int \<Rightarrow> bool" where
  "ShouldPromote (FrequencyBasedStrategy accessThreshold timeWindow idleTime) item now =
     (if accessThreshold > 0 \<and> timeWindow > 0
      then (let timeInWindow = i64 (now - CreateTime item)
            in if timeInWindow \<le> timeWindow \<and> AccessCount item \<ge> accessThreshold
               then True else False)
      else False)"
| "ShouldPromote (TimeWindowStrategy accessThreshold timeWindow idleThreshold) item now =
     (if timeWindow > 0 \<and> accessThreshold > 0
      then (let windowStart = i64 (now - timeWindow)
            in if AccessTime item \<ge> windowStart \<and> AccessCount item \<ge> accessThreshold
               then True else False)
      else False)"
| "ShouldPromote (HybridStrategy strategies requireAll) item now =
     (if strategies = [] then False
      else if requireAll then list_all (\<lambda>s. ShouldPromote s item now) strategies
      else list_ex (\<lambda>s. ShouldPromote s item now) strategies)"

fun ShouldDemote :: "Strategy \<Rightarrow> CacheItem \<Rightarrow> int \<Rightarrow> bool" where
  "ShouldDemote (FrequencyBasedStrategy accessThreshold timeWindow idleTime) item now =
     (if idleTime > 0
      then (let idle = i64 (now - AccessTime item)
            in if idle \<ge> idleTime then True else False)
      else False)"
| "ShouldDemote (TimeWindowStrategy accessThreshold timeWindow idleThreshold) item now =
     (if idleThreshold > 0
      then (let idle = i64 (now - AccessTime item)
            in if idle \<ge> idleThreshold then True else False)
      else False)"
| "ShouldDemote (HybridStrategy strategies requireAll) item now =
     (if strategies = [] then False
      else if requireAll then list_all (\<lambda>s. ShouldDemote s item now) strategies
      else list_ex (\<lambda>s. ShouldDemote s item now) strategies)"

section \<open>Redis as the environment\<close>

text \<open>
  The Redis server is outside the repository. Each operation takes the replies of the
  Redis calls it makes as arguments and appends the commands it sends to \<open>redisLog\<close>.
  A reply is a plain miss (\<open>redis.Nil\<close>), any other error, or a payload. The expiry
  passed to \<open>SET\<close> is logged in seconds; \<open>None\<close> as payload is the nil byte slice
  left by a failed \<open>json.Marshal\<close> whose error the source discards.
\<close>

datatype 'a redis_result = RedisNil | RedisErr | RedisOk 'a

datatype redis_cmd =
    RedisPing
  | RedisSet string "json option" int
  | RedisGet string
  | RedisTTL string
  | RedisDel string
  | RedisFlushDB
  | RedisClose

datatype error = ErrRedisOptionsNil | ErrRedis | ErrMarshal

datatype panic = CloseOfClosedChannel

section \<open>The cache\<close>

type_synonym redis_options = string

record CacheConfig =
  EnableL1Cache :: bool
  EnableL2Cache :: bool
  L1TTL :: int
  L2TTL :: int
  MaxL1Size :: int
  RedisOptions :: "redis_options option"
  PromotionStrategy :: "Strategy option"
  DemotionStrategy :: "Strategy option"

text \<open>
  \<open>localCache\<close> is the \<open>sync.Map\<close>: an association list from keys to envelopes.
  \<open>redisClient\<close> and \<open>cleanupTicker\<close> record whether the pointer is non-nil,
  \<open>stopCleanupClosed\<close> whether the channel \<open>stopCleanup\<close> has been closed.
\<close>

record MultiLevelCache =
  config :: CacheConfig
  localCache :: "(string \<times> CacheItem) list"
  redisClient :: bool
  itemCount :: int
  cleanupTicker :: bool
  stopCleanupClosed :: bool
  redisLog :: "redis_cmd list"

definition NewMultiLevelCache :: "CacheConfig \<Rightarrow> bool \<Rightarrow> error + MultiLevelCache" where
  "NewMultiLevelCache cfg ping_ok =
     (let cache = \<lparr>config = cfg, localCache = [], redisClient = False, itemCount = 0,
                   cleanupTicker = False, stopCleanupClosed = False, redisLog = []\<rparr>
      in if EnableL2Cache cfg \<and> RedisOptions cfg = None then Inl ErrRedisOptionsNil
         else if EnableL2Cache cfg \<and> \<not> ping_ok then Inl ErrRedis
         else
           (let cache = (if EnableL2Cache cfg
                         then cache\<lparr>redisClient := True, redisLog := [RedisPing]\<rparr>
                         else cache);
                cache = (if PromotionStrategy cfg = None
                         then cache\<lparr>config := (config cache)
                                \<lparr>PromotionStrategy := Some (NewFrequencyBasedStrategy 3 60 0)\<rparr>\<rparr>
                         else cache);
                cache = (if DemotionStrategy cfg = None
                         then cache\<lparr>config := (config cache)
                                \<lparr>DemotionStrategy := Some (NewFrequencyBasedStrategy 0 0 300)\<rparr>\<rparr>
                         else cache);
                cache = (if EnableL1Cache cfg then cache\<lparr>cleanupTicker := True\<rparr> else cache)
            in Inr cache))"

text \<open>
  \<open>NewMultiLevelCache\<close> replaces a nil strategy by the default before any operation
  runs. The operations read the strategies through the two functions below, which apply
  the same default, so that they agree with the source on every cache it constructs.
\<close>

definition promotion :: "MultiLevelCache \<Rightarrow> Strategy" where
  "promotion c =
     (case PromotionStrategy (config c) of
        None \<Rightarrow> NewFrequencyBasedStrategy 3 60 0 | Some s \<Rightarrow> s)"

definition demotion :: "MultiLevelCache \<Rightarrow> Strategy" where
  "demotion c =
     (case DemotionStrategy (config c) of
        None \<Rightarrow> NewFrequencyBasedStrategy 0 0 300 | Some s \<Rightarrow> s)"

text \<open>
  \<open>sync.Map.Range\<close> visits every entry once, in an order the language leaves open.
  The model takes that order as a parameter: \<open>rk\<close> gives each key its rank, and
  \<open>syncMapRange\<close> visits the entries by ascending rank.
\<close>

definition syncMapRange :: "(string \<Rightarrow> nat) \<Rightarrow> (string \<times> CacheItem) list \<Rightarrow> (string \<times> CacheItem) list" where
  "syncMapRange rk m = sort_key (\<lambda>kv. rk (fst kv)) m"

text \<open>
  The spill of one envelope, written out twice in the source (in the sweep and in
  \<open>evictLRU\<close>): marshal, compute the residual TTL, send \<open>SET\<close> when it is positive.
  The reply is not looked at.
\<close>

definition spill :: "MultiLevelCache \<Rightarrow> int \<Rightarrow> string \<Rightarrow> CacheItem \<Rightarrow> MultiLevelCache" where
  "spill c now k item =
     (if EnableL2Cache (config c)
      then (case Marshal item of
              None \<Rightarrow> c
            | Some jsonData \<Rightarrow>
                (let ttl = i64 (ExpireTime item - now)
                 in if ttl > 0
                    then c\<lparr>redisLog := redisLog c @ [RedisSet k (Some jsonData) ttl]\<rparr>
                    else c))
      else c)"

text \<open>\<open>c.localCache.Delete(k); c.itemCount--\<close>\<close>

definition deleteLocal :: "MultiLevelCache \<Rightarrow> string \<Rightarrow> MultiLevelCache" where
  "deleteLocal c k = c\<lparr>localCache := AList.delete k (localCache c), itemCount := itemCount c - 1\<rparr>"

fun evictLoop :: "MultiLevelCache \<Rightarrow> int \<Rightarrow> (string \<times> CacheItem) list \<Rightarrow> MultiLevelCache" where
  "evictLoop c now [] = c"
| "evictLoop c now ((k, item) # rest) = evictLoop (deleteLocal (spill c now k item) k) now rest"

text \<open>
  \<open>sort.Slice\<close> orders by \<open>AccessTime\<close> alone. It is not a stable sort; since the
  order of the snapshot is already arbitrary, a stable sort of an arbitrary snapshot
  produces every result \<open>sort.Slice\<close> can produce. The source allocates the slice
  with capacity \<open>itemCount\<close>, which Go refuses when that is negative; every call in the
  source is guarded by \<open>itemCount > MaxL1Size > 0\<close>, and the statements below about
  \<open>evictLRU\<close> on its own are about caches whose \<open>itemCount\<close> agrees with the map.
\<close>

definition evictLRU :: "MultiLevelCache \<Rightarrow> int \<Rightarrow> (string \<Rightarrow> nat) \<Rightarrow> int \<Rightarrow> MultiLevelCache" where
  "evictLRU c now rk cnt =
     (let items = syncMapRange rk (localCache c);
          items = sort_key (\<lambda>kv. AccessTime (snd kv)) items;
          evictCount = (if cnt > int (length items) then int (length items) else cnt)
      in evictLoop c now (take (nat evictCount) items))"

text \<open>The cap check that follows every insertion into L1.\<close>

definition capCheck :: "MultiLevelCache \<Rightarrow> int \<Rightarrow> (string \<Rightarrow> nat) \<Rightarrow> MultiLevelCache" where
  "capCheck c now rk =
     (if MaxL1Size (config c) > 0 \<and> itemCount c > MaxL1Size (config c)
      then evictLRU c now rk 1 else c)"

fun demoteLoop :: "MultiLevelCache \<Rightarrow> int \<Rightarrow> string list \<Rightarrow> MultiLevelCache" where
  "demoteLoop c now [] = c"
| "demoteLoop c now (k # ks) =
     (case map_of (localCache c) k of
        Some item \<Rightarrow> demoteLoop (deleteLocal (spill c now k item) k) now ks
      | None \<Rightarrow> demoteLoop c now ks)"

text \<open>The sweep of \<open>cleanupExpiredItems\<close> up to, and without, its final cap check.\<close>

definition sweep :: "MultiLevelCache \<Rightarrow> int \<Rightarrow> (string \<Rightarrow> nat) \<Rightarrow> MultiLevelCache" where
  "sweep c now rk =
     (let snapshot = syncMapRange rk (localCache c);
          keysToDelete = map fst (filter (\<lambda>kv. ExpireTime (snd kv) \<le> now) snapshot);
          keysToDemote = map fst (filter (\<lambda>kv. \<not> ExpireTime (snd kv) \<le> now
                                              \<and> ShouldDemote (demotion c) (snd kv) now) snapshot);
          c = fold (\<lambda>k c. deleteLocal c k) keysToDelete c
      in demoteLoop c now keysToDemote)"

definition cleanupExpiredItems :: "MultiLevelCache \<Rightarrow> int \<Rightarrow> (string \<Rightarrow> nat) \<Rightarrow> MultiLevelCache" where
  "cleanupExpiredItems c now rk =
     (let c = sweep c now rk
      in if MaxL1Size (config c) > 0 \<and> itemCount c > MaxL1Size (config c)
         then evictLRU c now rk (itemCount c - MaxL1Size (config c))
         else c)"

section \<open>The public operations\<close>

text \<open>
  Every operation takes the cache, the clock reading \<open>now\<close> it starts with (the clock is
  taken not to tick while one operation runs), the rank \<open>rk\<close> that fixes the order of a
  \<open>Range\<close> it may trigger, its own arguments and the replies of its Redis calls. It
  returns the cache it leaves behind and its result.
\<close>

definition Set :: "MultiLevelCache \<Rightarrow> int \<Rightarrow> (string \<Rightarrow> nat) \<Rightarrow> string \<Rightarrow> go_value \<Rightarrow> int \<Rightarrow> bool
    \<Rightarrow> MultiLevelCache \<times> error option" where
  "Set c now rk key val ttl set_ok =
     (let expireTime = i64 (now + ttl);
          item = \<lparr>Value = val, ExpireTime = expireTime, CreateTime = now,
                  AccessTime = now, AccessCount = 0\<rparr>;
          c = (if EnableL1Cache (config c)
               then (let c = (if map_of (localCache c) key = None
                              then c\<lparr>itemCount := itemCount c + 1\<rparr> else c);
                         c = c\<lparr>localCache := AList.update key item (localCache c)\<rparr>
                     in capCheck c now rk)
               else c)
      in if EnableL2Cache (config c)
         then (case Marshal item of
                 None \<Rightarrow> (c, Some ErrMarshal)
               | Some jsonData \<Rightarrow>
                   (let c = c\<lparr>redisLog := redisLog c @ [RedisSet key (Some jsonData) ttl]\<rparr>
                    in if set_ok then (c, None) else (c, Some ErrRedis)))
         else (c, None))"

text \<open>A successful read updates the access metadata of the envelope.\<close>

definition touch :: "CacheItem \<Rightarrow> int \<Rightarrow> CacheItem" where
  "touch item now = item\<lparr>AccessTime := now, AccessCount := i64 (AccessCount item + 1)\<rparr>"

text \<open>
  The L1 part of \<open>Get\<close> and \<open>GetWithTTL\<close>, the same text in both: a live entry is
  touched, stored back and returned; an expired one is deleted and the read falls through.
\<close>

definition lookupLocal :: "MultiLevelCache \<Rightarrow> int \<Rightarrow> string \<Rightarrow> MultiLevelCache \<times> CacheItem option" where
  "lookupLocal c now key =
     (if EnableL1Cache (config c)
      then (case map_of (localCache c) key of
              Some item \<Rightarrow>
                (if ExpireTime item > now
                 then (c\<lparr>localCache := AList.update key (touch item now) (localCache c)\<rparr>,
                       Some (touch item now))
                 else (deleteLocal c key, None))
            | None \<Rightarrow> (c, None))
      else (c, None))"

text \<open>The promotion of an envelope read from Redis, the same text in both readers.\<close>

definition promote :: "MultiLevelCache \<Rightarrow> int \<Rightarrow> (string \<Rightarrow> nat) \<Rightarrow> string \<Rightarrow> CacheItem \<Rightarrow> MultiLevelCache" where
  "promote c now rk key item =
     (if EnableL1Cache (config c) \<and> ShouldPromote (promotion c) item now
      then capCheck (c\<lparr>localCache := AList.update key item (localCache c),
                       itemCount := itemCount c + 1\<rparr>) now rk
      else c)"

definition Get :: "MultiLevelCache \<Rightarrow> int \<Rightarrow> (string \<Rightarrow> nat) \<Rightarrow> string \<Rightarrow> json redis_result
    \<Rightarrow> MultiLevelCache \<times> go_value option" where
  "Get c now rk key get_reply =
     (case lookupLocal c now key of
        (c, Some item) \<Rightarrow> (c, Some (Value item))
      | (c, None) \<Rightarrow>
          (if EnableL2Cache (config c)
           then (let c = c\<lparr>redisLog := redisLog c @ [RedisGet key]\<rparr>
                 in case get_reply of
                      RedisNil \<Rightarrow> (c, None)
                    | RedisErr \<Rightarrow> (c, None)
                    | RedisOk jsonData \<Rightarrow>
                        (case Unmarshal jsonData of
                           None \<Rightarrow> (c, None)
                         | Some item \<Rightarrow>
                             (if ExpireTime item > now
                              then (let item = touch item now;
                                        c = promote c now rk key item;
                                        c = c\<lparr>redisLog := redisLog c @
                                              [RedisSet key (Marshal item) (i64 (ExpireTime item - now))]\<rparr>
                                    in (c, Some (Value item)))
                              else (c, None))))
           else (c, None)))"

text \<open>
  \<open>TTL\<close> answers in whole seconds; a key without expiry or a missing key is answered by
  a negative number, not by an error.
\<close>

definition GetWithTTL :: "MultiLevelCache \<Rightarrow> int \<Rightarrow> (string \<Rightarrow> nat) \<Rightarrow> string
    \<Rightarrow> int redis_result \<Rightarrow> json redis_result \<Rightarrow> MultiLevelCache \<times> (go_value \<times> int) option" where
  "GetWithTTL c now rk key ttl_reply get_reply =
     (case lookupLocal c now key of
        (c, Some item) \<Rightarrow> (c, Some (Value item, i64 (ExpireTime item - now)))
      | (c, None) \<Rightarrow>
          (if EnableL2Cache (config c)
           then (let c = c\<lparr>redisLog := redisLog c @ [RedisTTL key]\<rparr>
                 in case ttl_reply of
                      RedisNil \<Rightarrow> (c, None)
                    | RedisErr \<Rightarrow> (c, None)
                    | RedisOk ttl \<Rightarrow>
                        (if ttl \<le> 0 then (c, None)
                         else (let c = c\<lparr>redisLog := redisLog c @ [RedisGet key]\<rparr>
                               in case get_reply of
                                    RedisNil \<Rightarrow> (c, None)
                                  | RedisErr \<Rightarrow> (c, None)
                                  | RedisOk jsonData \<Rightarrow>
                                      (case Unmarshal jsonData of
                                         None \<Rightarrow> (c, None)
                                       | Some item \<Rightarrow>
                                           (let item = touch item now;
                                                c = promote c now rk key item;
                                                c = c\<lparr>redisLog := redisLog c @
                                                      [RedisSet key (Marshal item) ttl]\<rparr>
                                            in (c, Some (Value item, ttl)))))))
           else (c, None)))"

definition Delete :: "MultiLevelCache \<Rightarrow> string \<Rightarrow> bool \<Rightarrow> MultiLevelCache \<times> error option" where
  "Delete c key del_ok =
     (let c = (if EnableL1Cache (config c)
               then (if map_of (localCache c) key \<noteq> None then deleteLocal c key else c)
               else c)
      in if EnableL2Cache (config c)
         then (let c = c\<lparr>redisLog := redisLog c @ [RedisDel key]\<rparr>
               in if del_ok then (c, None) else (c, Some ErrRedis))
         else (c, None))"

definition Clear :: "MultiLevelCache \<Rightarrow> bool \<Rightarrow> MultiLevelCache \<times> error option" where
  "Clear c flush_ok =
     (let c = (if EnableL1Cache (config c) then c\<lparr>localCache := [], itemCount := 0\<rparr> else c)
      in if EnableL2Cache (config c)
         then (let c = c\<lparr>redisLog := redisLog c @ [RedisFlushDB]\<rparr>
               in if flush_ok then (c, None) else (c, Some ErrRedis))
         else (c, None))"

definition SetWithExpiration :: "MultiLevelCache \<Rightarrow> int \<Rightarrow> (string \<Rightarrow> nat) \<Rightarrow> string \<Rightarrow> go_value
    \<Rightarrow> int \<Rightarrow> bool \<Rightarrow> MultiLevelCache \<times> error option" where
  "SetWithExpiration c now rk key val expireTime set_ok =
     (if expireTime \<le> now then (c, None)
      else Set c now rk key val (i64 (expireTime - now)) set_ok)"

text \<open>
  \<open>Close\<close> closes the channel \<open>stopCleanup\<close> whenever the ticker exists. Closing a
  channel that is already closed is a run-time panic in Go; the model returns it as
  \<open>Inl\<close>. \<open>close_ok\<close> is what the Redis client's own \<open>Close\<close> answers.
\<close>

definition Close :: "MultiLevelCache \<Rightarrow> bool \<Rightarrow> panic + MultiLevelCache \<times> error option" where
  "Close c close_ok =
     (if cleanupTicker c \<and> stopCleanupClosed c then Inl CloseOfClosedChannel
      else
        (let c = (if cleanupTicker c then c\<lparr>stopCleanupClosed := True\<rparr> else c)
         in if EnableL2Cache (config c) \<and> redisClient c
            then (let c = c\<lparr>redisLog := redisLog c @ [RedisClose]\<rparr>
                  in if close_ok then Inr (c, None) else Inr (c, Some ErrRedis))
            else Inr (c, None)))"

section \<open>Auxiliary notions and concrete caches\<close>

text \<open>Whether L1 serves the key at \<open>now\<close>: L1 is enabled and holds a live entry.\<close>

definition l1Live :: "MultiLevelCache \<Rightarrow> int \<Rightarrow> string \<Rightarrow> bool" where
  "l1Live c now key =
     (EnableL1Cache (config c) \<and>
      (case map_of (localCache c) key of None \<Rightarrow> False | Some item \<Rightarrow> ExpireTime item > now))"

text \<open>A configuration with both tiers off and no cap, and the variants the examples use.\<close>

definition cfgNone :: CacheConfig where
  "cfgNone = \<lparr>EnableL1Cache = False, EnableL2Cache = False, L1TTL = 0, L2TTL = 0,
              MaxL1Size = 0, RedisOptions = None,
              PromotionStrategy = None, DemotionStrategy = None\<rparr>"

definition cfgL1 :: CacheConfig where
  "cfgL1 = cfgNone\<lparr>EnableL1Cache := True\<rparr>"

definition cfgL2 :: CacheConfig where
  "cfgL2 = cfgNone\<lparr>EnableL2Cache := True, RedisOptions := Some ''localhost:6379''\<rparr>"

definition cfgA :: CacheConfig where
  "cfgA = cfgNone\<lparr>EnableL1Cache := True, EnableL2Cache := True, MaxL1Size := 10,
                  RedisOptions := Some ''localhost:6379'',
                  PromotionStrategy := Some (NewFrequencyBasedStrategy 3 60 0),
                  DemotionStrategy := Some (NewFrequencyBasedStrategy 0 0 0)\<rparr>"

text \<open>The cache \<open>NewMultiLevelCache\<close> returns for a configuration, as a record.\<close>

definition newCache :: "CacheConfig \<Rightarrow> MultiLevelCache" where
  "newCache cfg =
     \<lparr>config = cfg\<lparr>PromotionStrategy :=
                      (case PromotionStrategy cfg of
                         None \<Rightarrow> Some (NewFrequencyBasedStrategy 3 60 0) | Some s \<Rightarrow> Some s),
                    DemotionStrategy :=
                      (case DemotionStrategy cfg of
                         None \<Rightarrow> Some (NewFrequencyBasedStrategy 0 0 300) | Some s \<Rightarrow> Some s)\<rparr>,
      localCache = [], redisClient = EnableL2Cache cfg, itemCount = 0,
      cleanupTicker = EnableL1Cache cfg, stopCleanupClosed = False,
      redisLog = (if EnableL2Cache cfg then [RedisPing] else [])\<rparr>"




definition docA :: json where
  "docA = JObj [(''value'', JStr ''x''), (''expire_time'', JNum 1000), (''create_time'', JNum 0),
               (''access_time'', JNum 0), (''access_count'', JNum 2)]"

text \<open>
  What \<open>Set(''k'', ''v'', 5)\<close> at time 0 sends to Redis: the document a later read gets
  back as long as Redis holds the key.
\<close>

definition docK :: json where
  "docK = JObj [(''value'', JStr ''v''), (''expire_time'', JNum 5), (''create_time'', JNum 0),
               (''access_time'', JNum 0), (''access_count'', JNum 0)]"

definition rk0 :: "string \<Rightarrow> nat" where
  "rk0 k = 0"

text \<open>
  The order in which \<open>evictLRU\<close> walks the entries: the snapshot of \<open>Range\<close>, sorted
  by \<open>AccessTime\<close>. Its first \<open>evictCount\<close> entries are the ones evicted.
\<close>

definition lruOrder :: "(string \<Rightarrow> nat) \<Rightarrow> (string \<times> CacheItem) list \<Rightarrow> (string \<times> CacheItem) list" where
  "lruOrder rk m = sort_key (\<lambda>kv. AccessTime (snd kv)) (syncMapRange rk m)"

text \<open>The keys L1 holds, and the agreement of \<open>itemCount\<close> with their number.\<close>

definition l1Keys :: "MultiLevelCache \<Rightarrow> string set" where
  "l1Keys c = fst ` set (localCache c)"

definition l1Consistent :: "MultiLevelCache \<Rightarrow> bool" where
  "l1Consistent c \<longleftrightarrow> distinct (map fst (localCache c)) \<and> itemCount c = int (card (l1Keys c))"

text \<open>
  The order the specification states for eviction: ascending \<open>access_time\<close>, then
  \<open>create_time\<close>, then the key, compared byte by byte as Go compares strings.
\<close>

fun strLess :: "string \<Rightarrow> string \<Rightarrow> bool" where
  "strLess [] [] = False"
| "strLess [] (y # ys) = True"
| "strLess (x # xs) [] = False"
| "strLess (x # xs) (y # ys) = ((of_char x :: nat) < of_char y \<or> (x = y \<and> strLess xs ys))"

definition specBefore :: "string \<times> CacheItem \<Rightarrow> string \<times> CacheItem \<Rightarrow> bool" where
  "specBefore a b \<longleftrightarrow>
     AccessTime (snd a) < AccessTime (snd b)
     \<or> (AccessTime (snd a) = AccessTime (snd b)
        \<and> (CreateTime (snd a) < CreateTime (snd b)
           \<or> (CreateTime (snd a) = CreateTime (snd b) \<and> strLess (fst a) (fst b))))"

text \<open>
  An L1-only cache after \<open>Set(''b'', 2, 100)\<close> at time 0, \<open>Set(''a'', 1, 100)\<close> at
  time 1 and \<open>Get(''b'')\<close> at time 1: both entries were last accessed at time 1, and
  \<open>''b''\<close> is the older one. \<open>rkA\<close> is a \<open>Range\<close> that visits \<open>''a''\<close> first.
\<close>

definition cacheT :: MultiLevelCache where
  "cacheT = fst (Get (fst (Set (fst (Set (newCache cfgL1) 0 rk0 ''b'' (GoInt 2) 100 True))
                              1 rk0 ''a'' (GoInt 1) 100 True))
                     1 rk0 ''b'' RedisNil)"

definition rkA :: "string \<Rightarrow> nat" where
  "rkA k = (if k = ''a'' then 0 else 1)"

text \<open>Whether a reply to \<open>GET\<close> carries an envelope that is live at \<open>now\<close>.\<close>

definition liveReply :: "int \<Rightarrow> json redis_result \<Rightarrow> bool" where
  "liveReply now r =
     (case r of
        RedisOk jsonData \<Rightarrow>
          (case Unmarshal jsonData of None \<Rightarrow> False | Some env \<Rightarrow> ExpireTime env > now)
      | _ \<Rightarrow> False)"

text \<open>
  An L1-only cache capped at one entry, after \<open>Set(''a'', 1, 100)\<close> at time 0;
  \<open>rkB\<close> is a \<open>Range\<close> that visits \<open>''b''\<close> first.
\<close>

definition cacheCap :: MultiLevelCache where
  "cacheCap = fst (Set (newCache (cfgL1\<lparr>MaxL1Size := 1\<rparr>)) 0 rk0 ''a'' (GoInt 1) 100 True)"

definition rkB :: "string \<Rightarrow> nat" where
  "rkB k = (if k = ''b'' then 0 else 1)"

text \<open>
  The caches of a sequential execution: what \<open>NewMultiLevelCache\<close> returns, followed
  by any number of public operations and maintenance ticks, one after the other.
\<close>

inductive reachable :: "MultiLevelCache \<Rightarrow> bool" where
  new: "NewMultiLevelCache cfg ping_ok = Inr c \<Longrightarrow> reachable c"
| set: "reachable c \<Longrightarrow> reachable (fst (Set c now rk key val ttl set_ok))"
| setWithExpiration:
    "reachable c \<Longrightarrow> reachable (fst (SetWithExpiration c now rk key val expireTime set_ok))"
| get: "reachable c \<Longrightarrow> reachable (fst (Get c now rk key get_reply))"
| getWithTTL: "reachable c \<Longrightarrow> reachable (fst (GetWithTTL c now rk key ttl_reply get_reply))"
| delete: "reachable c \<Longrightarrow> reachable (fst (Delete c key del_ok))"
| clear: "reachable c \<Longrightarrow> reachable (fst (Clear c flush_ok))"
| tick: "reachable c \<Longrightarrow> reachable (cleanupExpiredItems c now rk)"

section \<open>Arithmetic helpers\<close>

lemma i64_id: "in_i64 x \<Longrightarrow> i64 x = x"
proof -
  assume "in_i64 x"
  then have "0 \<le> x + 2 ^ 63" and "x + 2 ^ 63 < (2 ^ 64 :: int)"
    by (simp_all add: in_i64_def)
  then have "(x + 2 ^ 63) mod 2 ^ 64 = x + 2 ^ 63"
    by (rule mod_pos_pos_trivial)
  then show "i64 x = x"
    by (simp add: i64_def)
qed

section \<open>The frequency policy\<close>

text \<open>
  Claim C9. For every entry and every clock reading \<open>now\<close>, the frequency policy with
  parameters (threshold, window, idle) promotes exactly when threshold > 0 and window > 0
  and now - create_time <= window and access_count >= threshold, and it demotes exactly
  when idle > 0 and now - access_time >= idle. The two differences are the source's
  \<open>int64\<close> subtractions, \<open>i64 (now - t)\<close>, which by \<open>i64_id\<close> are the
  mathematical differences whenever those fit 64 bits. Both decisions are functions of the
  entry and \<open>now\<close> alone.
\<close>

theorem frequency_policy_exact:
  "(ShouldPromote (NewFrequencyBasedStrategy threshold window idle) item now
      \<longleftrightarrow> threshold > 0 \<and> window > 0 \<and> i64 (now - CreateTime item) \<le> window
          \<and> AccessCount item \<ge> threshold)
   \<and> (ShouldDemote (NewFrequencyBasedStrategy threshold window idle) item now
      \<longleftrightarrow> idle > 0 \<and> i64 (now - AccessTime item) \<ge> idle)"
  by (auto simp add: NewFrequencyBasedStrategy_def Let_def)

section \<open>Construction and shutdown\<close>

lemma NewMultiLevelCache_newCache:
  "NewMultiLevelCache cfg ping_ok = Inr c \<Longrightarrow> c = newCache cfg"
  by (auto simp: NewMultiLevelCache_def newCache_def Let_def split: if_splits option.splits)

lemma NewMultiLevelCache_succeeds:
  "\<not> EnableL2Cache cfg \<or> (RedisOptions cfg \<noteq> None \<and> ping_ok) \<Longrightarrow>
   NewMultiLevelCache cfg ping_ok = Inr (newCache cfg)"
  by (auto simp: NewMultiLevelCache_def newCache_def Let_def split: if_splits option.splits)

text \<open>
  Claim C5 says that a second \<open>Close\<close> is a no-op that neither panics nor changes the
  cache, also when L1 is enabled and the maintenance loop runs. The source closes the
  channel \<open>stopCleanup\<close> whenever the ticker exists, without recording that it did: for
  every cache constructed with L1 enabled the first \<open>Close\<close> returns and the second one
  panics with a close of a closed channel, whatever the Redis client answers.
\<close>

theorem close_twice_panics:
  "\<exists>c1 e. Close (newCache (cfg\<lparr>EnableL1Cache := True\<rparr>)) ok1 = Inr (c1, e)
          \<and> Close c1 ok2 = Inl CloseOfClosedChannel"
  by (simp add: Close_def newCache_def Let_def)

section \<open>Degraded reads\<close>

text \<open>
  Claim C8. For every key, when L1 does not serve the key (it is disabled, misses, or holds
  an expired entry) and a Redis call of the read fails with an error other than a plain
  miss, \<open>Get\<close> and \<open>GetWithTTL\<close> report a miss: the failing call may be the \<open>GET\<close>
  of \<open>Get\<close>, the \<open>TTL\<close> of \<open>GetWithTTL\<close>, or the \<open>GET\<close> that follows a
  successful \<open>TTL\<close>. Their result types carry neither an error nor a panic.
\<close>

theorem read_l2_error_is_miss:
  assumes "\<not> l1Live c now key"
  shows "snd (Get c now rk key RedisErr) = None
       \<and> snd (GetWithTTL c now rk key RedisErr get_reply) = None
       \<and> snd (GetWithTTL c now rk key ttl_reply RedisErr) = None"
  using assms
  by (auto simp: Get_def GetWithTTL_def lookupLocal_def l1Live_def Let_def
           split: option.splits redis_result.splits if_splits)

theorem read_l2_error_is_miss_witness:
  "\<not> l1Live (newCache cfgA) 1 ''a''
   \<and> snd (Get (newCache cfgA) 1 rk0 ''a'' RedisErr) = None
   \<and> snd (GetWithTTL (newCache cfgA) 1 rk0 ''a'' RedisErr (RedisOk docA)) = None
   \<and> snd (GetWithTTL (newCache cfgA) 1 rk0 ''a'' (RedisOk 999) RedisErr) = None"
proof -
  have h: "\<not> l1Live (newCache cfgA) 1 ''a''"
    by (simp add: l1Live_def newCache_def)
  show ?thesis
    using h read_l2_error_is_miss [OF h, of rk0 "RedisOk docA" "RedisOk 999"] by simp
qed

section \<open>GetWithTTL against Get\<close>

text \<open>
  Claim C7 says that \<open>GetWithTTL\<close> behaves as \<open>Get\<close> does, apart from the TTL it
  returns and the misses the TTL query adds. \<open>Get\<close> checks \<open>ExpireTime > now\<close> on
  the envelope it reads from Redis; \<open>GetWithTTL\<close> has no such check. With L1 off, at
  time 5, for the envelope that \<open>Set(''k'', ''v'', 5)\<close> wrote at time 0 and that Redis
  still reports with one second to live, \<open>Get\<close> misses and \<open>GetWithTTL\<close> hits.
\<close>

theorem getWithTTL_serves_expired:
  "snd (Get (newCache cfgL2) 5 rk0 ''k'' (RedisOk docK)) = None
   \<and> snd (GetWithTTL (newCache cfgL2) 5 rk0 ''k'' (RedisOk 1) (RedisOk docK))
       = Some (GoString ''v'', 1)"
  by (simp add: Get_def GetWithTTL_def lookupLocal_def newCache_def cfgL2_def cfgNone_def Let_def
       promote_def touch_def in_i64_def docK_def)

section \<open>The envelope on the wire\<close>






section \<open>Promotion on an L2 hit\<close>




section \<open>Eviction\<close>

lemma spill_fields [simp]:
  "config (spill c now k item) = config c"
  "localCache (spill c now k item) = localCache c"
  "itemCount (spill c now k item) = itemCount c"
  by (simp_all add: spill_def Let_def split: option.splits)

lemma deleteLocal_fields [simp]:
  "config (deleteLocal c k) = config c"
  "localCache (deleteLocal c k) = AList.delete k (localCache c)"
  "itemCount (deleteLocal c k) = itemCount c - 1"
  by (simp_all add: deleteLocal_def)

lemma evictLoop_config [simp]: "config (evictLoop c now vs) = config c"
  by (induction vs arbitrary: c) auto

lemma evictLoop_itemCount: "itemCount (evictLoop c now vs) = itemCount c - int (length vs)"
  by (induction vs arbitrary: c) auto

lemma evictLoop_localCache:
  "localCache (evictLoop c now vs) = filter (\<lambda>kv. fst kv \<notin> fst ` set vs) (localCache c)"
proof (induction vs arbitrary: c)
  case Nil
  show ?case by simp
next
  case (Cons v vs)
  obtain k item where v: "v = (k, item)" by (cases v)
  have "filter (\<lambda>kv. fst kv \<notin> fst ` set vs) (AList.delete k (localCache c))
        = filter (\<lambda>kv. fst kv \<notin> fst ` set (v # vs)) (localCache c)"
    by (auto simp: v AList.delete_eq intro!: filter_cong)
  then show ?case by (simp add: v Cons.IH)
qed

lemma evictLRU_unfold:
  "evictLRU c now rk n =
     evictLoop c now (take (nat (min n (int (length (localCache c))))) (lruOrder rk (localCache c)))"
  by (simp add: evictLRU_def lruOrder_def syncMapRange_def Let_def min_def)

lemma mset_lruOrder [simp]: "mset (lruOrder rk m) = mset m"
  by (simp add: lruOrder_def syncMapRange_def)

lemma set_lruOrder [simp]: "set (lruOrder rk m) = set m"
  by (simp add: lruOrder_def syncMapRange_def)

lemma length_lruOrder [simp]: "length (lruOrder rk m) = length m"
  by (simp add: lruOrder_def syncMapRange_def)

lemma distinct_keys_lruOrder [simp]: "distinct (map fst (lruOrder rk m)) = distinct (map fst m)"
proof -
  have "mset (map fst (lruOrder rk m)) = mset (map fst m)"
    by simp
  then show ?thesis by (rule mset_eq_imp_distinct_iff)
qed

lemma sorted_lruOrder: "sorted (map (\<lambda>kv. AccessTime (snd kv)) (lruOrder rk m))"
  by (simp add: lruOrder_def sorted_sort_key)

lemma filter_keys_take:
  assumes "distinct (map fst xs)"
  shows "filter (\<lambda>kv. fst kv \<notin> fst ` set (take m xs)) xs = drop m xs"
proof -
  have d: "distinct (map fst (take m xs) @ map fst (drop m xs))"
    using assms by (simp flip: map_append)
  have "filter (\<lambda>kv. fst kv \<notin> fst ` set (take m xs)) (take m xs) = []"
    by (auto simp: filter_empty_conv)
  moreover have "filter (\<lambda>kv. fst kv \<notin> fst ` set (take m xs)) (drop m xs) = drop m xs"
    using d by (auto simp: filter_id_conv)
  ultimately have "filter (\<lambda>kv. fst kv \<notin> fst ` set (take m xs)) (take m xs @ drop m xs) = drop m xs"
    by (simp only: filter_append append_Nil)
  then show ?thesis by simp
qed

lemma mset_filter_victims:
  assumes "distinct (map fst xs)" "mset l = mset xs"
  shows "mset (filter (\<lambda>kv. fst kv \<notin> fst ` set (take m xs)) l) = mset (drop m xs)"
proof -
  have "mset (filter (\<lambda>kv. fst kv \<notin> fst ` set (take m xs)) l)
        = mset (filter (\<lambda>kv. fst kv \<notin> fst ` set (take m xs)) xs)"
    by (simp add: assms(2))
  then show ?thesis by (simp add: filter_keys_take [OF assms(1)])
qed

lemma evictLRU_mset:
  assumes "distinct (map fst (localCache c))"
  shows "mset (localCache (evictLRU c now rk n))
         = mset (drop (nat (min n (int (length (localCache c))))) (lruOrder rk (localCache c)))"
  unfolding evictLRU_unfold evictLoop_localCache
  by (rule mset_filter_victims) (simp_all add: assms)

lemma evictLRU_itemCount:
  "itemCount (evictLRU c now rk n) = itemCount c - int (nat (min n (int (length (localCache c)))))"
proof -
  have "min (length (localCache c)) (nat (min n (int (length (localCache c)))))
        = nat (min n (int (length (localCache c))))"
    by linarith
  then show ?thesis
    by (simp add: evictLRU_unfold evictLoop_itemCount)
qed

lemma evictLRU_config [simp]: "config (evictLRU c now rk n) = config c"
  by (simp add: evictLRU_unfold)

lemma evictLRU_distinct:
  "distinct (map fst (localCache c)) \<Longrightarrow> distinct (map fst (localCache (evictLRU c now rk n)))"
  by (simp add: evictLRU_unfold evictLoop_localCache distinct_map_filter)

lemma evictLRU_length:
  assumes "distinct (map fst (localCache c))"
  shows "length (localCache (evictLRU c now rk n))
         = length (localCache c) - nat (min n (int (length (localCache c))))"
proof -
  have "size (mset (localCache (evictLRU c now rk n)))
        = size (mset (drop (nat (min n (int (length (localCache c))))) (lruOrder rk (localCache c))))"
    by (simp only: evictLRU_mset [OF assms])
  then show ?thesis by simp
qed

lemma cacheT_localCache:
  "localCache cacheT =
     [(''b'', \<lparr>Value = GoInt 2, ExpireTime = 100, CreateTime = 0, AccessTime = 1, AccessCount = 1\<rparr>),
      (''a'', \<lparr>Value = GoInt 1, ExpireTime = 101, CreateTime = 1, AccessTime = 1, AccessCount = 0\<rparr>)]"
  by (simp add: cacheT_def Get_def Set_def lookupLocal_def capCheck_def newCache_def cfgL1_def
      cfgNone_def Let_def touch_def i64_def)

text \<open>
  Claim C3 says that eviction removes the entries least in the order \<open>access_time\<close>,
  then \<open>create_time\<close>, then key. The comparison \<open>evictLRU\<close> sorts by looks at
  \<open>AccessTime\<close> only. In \<open>cacheT\<close> both entries have access time 1 and \<open>''b''\<close>
  is the older one, so the stated order puts \<open>''b''\<close> first; when \<open>Range\<close> visits
  \<open>''a''\<close> first, evicting one entry removes \<open>''a''\<close> and keeps \<open>''b''\<close>.
\<close>

theorem evictLRU_tie_counterexample:
  "localCache cacheT =
     [(''b'', \<lparr>Value = GoInt 2, ExpireTime = 100, CreateTime = 0, AccessTime = 1, AccessCount = 1\<rparr>),
      (''a'', \<lparr>Value = GoInt 1, ExpireTime = 101, CreateTime = 1, AccessTime = 1, AccessCount = 0\<rparr>)]
   \<and> specBefore
       (''b'', \<lparr>Value = GoInt 2, ExpireTime = 100, CreateTime = 0, AccessTime = 1, AccessCount = 1\<rparr>)
       (''a'', \<lparr>Value = GoInt 1, ExpireTime = 101, CreateTime = 1, AccessTime = 1, AccessCount = 0\<rparr>)
   \<and> localCache (evictLRU cacheT 2 rkA 1) =
     [(''b'', \<lparr>Value = GoInt 2, ExpireTime = 100, CreateTime = 0, AccessTime = 1, AccessCount = 1\<rparr>)]"
  by (simp add: cacheT_localCache specBefore_def evictLRU_unfold evictLoop_localCache lruOrder_def
      syncMapRange_def rkA_def)

lemma sorted_take_drop:
  assumes "sorted (map f xs)" "x \<in> set (take m xs)" "y \<in> set (drop m xs)"
  shows "f x \<le> f y"
proof -
  have "sorted (map f (take m xs) @ map f (drop m xs))"
    using assms(1) by (simp flip: map_append)
  then show ?thesis
    using assms(2,3) by (auto simp: sorted_append)
qed

text \<open>
  Claim C3, amended. For every quiescent L1 state (\<open>itemCount\<close> agrees with the map)
  and every \<open>n\<close>, evicting
  \<open>n\<close> items removes exactly min(n, |snapshot|) entries (none when \<open>n\<close> is not
  positive) and lowers \<open>itemCount\<close> by that number; the entries kept are unchanged, and
  every entry removed has an \<open>access_time\<close> no later than that of every entry kept.
  Which of several entries with the same \<open>access_time\<close> goes is decided by the order
  in which \<open>Range\<close> visits the map, not by \<open>create_time\<close> or key.
\<close>

theorem evictLRU_removes_least_recent:
  assumes "l1Consistent c"
  shows "length (localCache (evictLRU c now rk n))
           = length (localCache c) - nat (min n (int (length (localCache c))))
       \<and> itemCount (evictLRU c now rk n)
           = itemCount c - int (nat (min n (int (length (localCache c)))))
       \<and> set (localCache (evictLRU c now rk n)) \<subseteq> set (localCache c)
       \<and> (\<forall>removed \<in> set (localCache c) - set (localCache (evictLRU c now rk n)).
            \<forall>kept \<in> set (localCache (evictLRU c now rk n)).
              AccessTime (snd removed) \<le> AccessTime (snd kept))"
proof -
  let ?m = "nat (min n (int (length (localCache c))))"
  let ?xs = "lruOrder rk (localCache c)"
  have d: "distinct (map fst (localCache c))"
    using assms by (simp add: l1Consistent_def)
  have kept: "set (localCache (evictLRU c now rk n)) = set (drop ?m ?xs)"
    using evictLRU_mset [OF d, of now rk n] by (rule mset_eq_setD)
  have all: "set (localCache c) = set (take ?m ?xs) \<union> set (drop ?m ?xs)"
    by (simp flip: set_append)
  have ord: "\<forall>x \<in> set (take ?m ?xs). \<forall>y \<in> set (drop ?m ?xs).
      AccessTime (snd x) \<le> AccessTime (snd y)"
    using sorted_take_drop [OF sorted_lruOrder] by blast
  have "\<forall>removed \<in> set (localCache c) - set (localCache (evictLRU c now rk n)).
          \<forall>kept \<in> set (localCache (evictLRU c now rk n)).
            AccessTime (snd removed) \<le> AccessTime (snd kept)"
    using ord all by (auto simp: kept)
  moreover have "set (localCache (evictLRU c now rk n)) \<subseteq> set (localCache c)"
    using all by (auto simp: kept)
  ultimately show ?thesis
    by (simp add: evictLRU_length [OF d] evictLRU_itemCount)
qed

theorem evictLRU_removes_least_recent_witness:
  "l1Consistent cacheT
   \<and> length (localCache (evictLRU cacheT 2 rkA 1)) = 1
   \<and> itemCount (evictLRU cacheT 2 rkA 1) = 1
   \<and> map fst (localCache (evictLRU cacheT 2 rk0 1)) = [''a'']
   \<and> map fst (localCache (evictLRU cacheT 2 rkA 1)) = [''b'']"
proof -
  have n: "itemCount cacheT = 2"
    by (simp add: cacheT_def Get_def Set_def lookupLocal_def capCheck_def newCache_def cfgL1_def
        cfgNone_def Let_def touch_def i64_def)
  have k: "card {''b'', ''a''} = 2" by simp
  have h: "l1Consistent cacheT"
    by (simp add: l1Consistent_def l1Keys_def cacheT_localCache n k)
  have e: "map fst (localCache (evictLRU cacheT 2 rk0 1)) = [''a'']"
    "map fst (localCache (evictLRU cacheT 2 rkA 1)) = [''b'']"
    by (simp_all add: cacheT_localCache evictLRU_unfold evictLoop_localCache lruOrder_def
      syncMapRange_def rkA_def rk0_def)
  show ?thesis
    using h e evictLRU_removes_least_recent [OF h, of 2 rkA 1]
    by (simp add: cacheT_localCache n)
qed

section \<open>The item counter\<close>

lemma l1Consistent_iff:
  "l1Consistent c \<longleftrightarrow>
     distinct (map fst (localCache c)) \<and> itemCount c = int (length (localCache c))"
proof -
  have "distinct (map fst (localCache c)) \<Longrightarrow>
        card (fst ` set (localCache c)) = length (localCache c)"
    using distinct_card [of "map fst (localCache c)"] by simp
  then show ?thesis
    by (auto simp: l1Consistent_def l1Keys_def)
qed

lemma l1Consistent_redisLog [simp]: "l1Consistent (c\<lparr>redisLog := x\<rparr>) = l1Consistent c"
  by (simp add: l1Consistent_def l1Keys_def)

lemma l1Keys_redisLog [simp]: "l1Keys (c\<lparr>redisLog := x\<rparr>) = l1Keys c"
  by (simp add: l1Keys_def)

lemma l1Consistent_spill [simp]: "l1Consistent (spill c now k item) = l1Consistent c"
  by (simp add: l1Consistent_def l1Keys_def)

lemma length_delete_present:
  assumes "distinct (map fst l)" "k \<in> fst ` set l"
  shows "int (length (AList.delete k l)) = int (length l) - 1"
proof -
  have "length (AList.delete k l) = length (map fst (AList.delete k l))" by simp
  also have "\<dots> = length (remove1 k (map fst l))"
    using assms(1) by (simp only: delete_keys distinct_remove1_removeAll)
  also have "\<dots> = length l - 1"
    using assms(2) by (simp add: length_remove1)
  finally have "length (AList.delete k l) = length l - 1" .
  moreover have "0 < length l" using assms(2) by auto
  ultimately show ?thesis by linarith
qed

lemma deleteLocal_consistent:
  assumes "l1Consistent c" "k \<in> l1Keys c"
  shows "l1Consistent (deleteLocal c k)"
  using assms
  by (simp add: l1Consistent_iff l1Keys_def distinct_delete length_delete_present)

lemma l1Keys_deleteLocal: "l1Keys (deleteLocal c k) = l1Keys c - {k}"
  by (auto simp: l1Keys_def AList.delete_eq)

lemma map_of_l1Keys: "map_of (localCache c) k = Some v \<Longrightarrow> k \<in> l1Keys c"
  by (auto simp: l1Keys_def dest!: map_of_SomeD intro: rev_image_eqI)

lemma map_of_None_l1Keys: "map_of (localCache c) k = None \<longleftrightarrow> k \<notin> l1Keys c"
  by (simp add: l1Keys_def map_of_eq_None_iff)

lemma store_consistent:
  assumes "l1Consistent c"
    and "localCache c' = AList.update key item (localCache c)"
    and "itemCount c' = (if key \<in> l1Keys c then itemCount c else itemCount c + 1)"
  shows "l1Consistent c'"
proof -
  have "length (AList.update key item (localCache c))
        = (if key \<in> l1Keys c then length (localCache c) else Suc (length (localCache c)))"
    using arg_cong [OF update_keys [of key item "localCache c"], of length]
    by (simp add: l1Keys_def)
  then show ?thesis
    using assms by (simp add: l1Consistent_iff distinct_update)
qed

lemma evictLRU_consistent:
  assumes "l1Consistent c"
  shows "l1Consistent (evictLRU c now rk n)"
proof -
  from assms have d: "distinct (map fst (localCache c))"
    and n: "itemCount c = int (length (localCache c))"
    by (simp_all add: l1Consistent_iff)
  have "nat (min n (int (length (localCache c)))) \<le> length (localCache c)" by linarith
  then show ?thesis
    by (simp add: l1Consistent_iff evictLRU_distinct [OF d] evictLRU_length [OF d]
        evictLRU_itemCount n)
qed

lemma capCheck_consistent: "l1Consistent c \<Longrightarrow> l1Consistent (capCheck c now rk)"
  by (simp add: capCheck_def evictLRU_consistent)

lemma capCheck_config [simp]: "config (capCheck c now rk) = config c"
  by (simp add: capCheck_def)

lemma Set_consistent: "l1Consistent c \<Longrightarrow> l1Consistent (fst (Set c now rk key val ttl set_ok))"
proof -
  assume a: "l1Consistent c"
  have "l1Consistent (capCheck c' now rk)"
    if "localCache c' = AList.update key item (localCache c)"
      and "itemCount c' = (if key \<in> l1Keys c then itemCount c else itemCount c + 1)"
    for c' item
    using store_consistent [OF a that] by (rule capCheck_consistent)
  then show ?thesis
    using a by (auto simp: Set_def Let_def map_of_None_l1Keys split: option.splits)
qed

lemma lookupLocal_consistent:
  assumes "l1Consistent c"
  shows "l1Consistent (fst (lookupLocal c now key))"
proof -
  have "l1Consistent (c\<lparr>localCache := AList.update key item' (localCache c)\<rparr>)"
    if "map_of (localCache c) key = Some item" for item item'
    using map_of_l1Keys [OF that] by (intro store_consistent [OF assms, of _ key item']) simp_all
  then show ?thesis
    using assms
    by (auto simp: lookupLocal_def deleteLocal_consistent map_of_l1Keys split: option.splits)
qed

lemma lookupLocal_config [simp]: "config (fst (lookupLocal c now key)) = config c"
  by (simp add: lookupLocal_def split: option.splits)

lemma lookupLocal_absent:
  assumes "snd (lookupLocal c now key) = None" "EnableL1Cache (config c)"
  shows "key \<notin> l1Keys (fst (lookupLocal c now key))"
  using assms
  by (auto simp: lookupLocal_def l1Keys_deleteLocal map_of_None_l1Keys
      split: option.splits if_splits dest: map_of_l1Keys)

lemma promote_consistent:
  assumes "l1Consistent c" "EnableL1Cache (config c) \<Longrightarrow> key \<notin> l1Keys c"
  shows "l1Consistent (promote c now rk key item)"
proof (cases "EnableL1Cache (config c) \<and> ShouldPromote (promotion c) item now")
  case True
  with assms(2) have "key \<notin> l1Keys c" by simp
  then have "l1Consistent (c\<lparr>localCache := AList.update key item (localCache c),
                         itemCount := itemCount c + 1\<rparr>)"
    by (intro store_consistent [OF assms(1), of _ key item]) simp_all
  then show ?thesis using True by (simp add: promote_def capCheck_consistent)
next
  case False
  then show ?thesis using assms(1) by (auto simp: promote_def)
qed

lemma Get_consistent:
  assumes "l1Consistent c"
  shows "l1Consistent (fst (Get c now rk key get_reply))"
proof -
  obtain c1 r where l: "lookupLocal c now key = (c1, r)" by (cases "lookupLocal c now key")
  have c1: "l1Consistent c1" and cfg: "config c1 = config c"
    using lookupLocal_consistent [OF assms, of now key] lookupLocal_config [of c now key] l
    by simp_all
  show ?thesis
  proof (cases r)
    case (Some item)
    then show ?thesis using c1 by (simp add: Get_def l)
  next
    case None
    then have "EnableL1Cache (config c) \<Longrightarrow> key \<notin> l1Keys c1"
      using lookupLocal_absent [of c now key] l by simp
    then have p: "l1Consistent (promote (c1\<lparr>redisLog := x\<rparr>) now rk key item)" for x item
      using c1 cfg by (intro promote_consistent) simp_all
    show ?thesis
      using c1 p None
      by (simp add: Get_def l Let_def split: redis_result.splits option.splits)
  qed
qed

lemma GetWithTTL_consistent:
  assumes "l1Consistent c"
  shows "l1Consistent (fst (GetWithTTL c now rk key ttl_reply get_reply))"
proof -
  obtain c1 r where l: "lookupLocal c now key = (c1, r)" by (cases "lookupLocal c now key")
  have c1: "l1Consistent c1" and cfg: "config c1 = config c"
    using lookupLocal_consistent [OF assms, of now key] lookupLocal_config [of c now key] l
    by simp_all
  show ?thesis
  proof (cases r)
    case (Some item)
    then show ?thesis using c1 by (simp add: GetWithTTL_def l)
  next
    case None
    then have "EnableL1Cache (config c) \<Longrightarrow> key \<notin> l1Keys c1"
      using lookupLocal_absent [of c now key] l by simp
    then have p: "l1Consistent (promote (c1\<lparr>redisLog := x\<rparr>) now rk key item)" for x item
      using c1 cfg by (intro promote_consistent) simp_all
    show ?thesis
      using c1 p None
      by (simp add: GetWithTTL_def l Let_def split: redis_result.splits option.splits)
  qed
qed

lemma Delete_consistent: "l1Consistent c \<Longrightarrow> l1Consistent (fst (Delete c key del_ok))"
  by (auto simp: Delete_def Let_def deleteLocal_consistent map_of_l1Keys)

lemma Clear_consistent: "l1Consistent c \<Longrightarrow> l1Consistent (fst (Clear c flush_ok))"
  by (auto simp: Clear_def Let_def l1Consistent_def l1Keys_def)

lemma newCache_consistent: "l1Consistent (newCache cfg)"
  by (simp add: newCache_def l1Consistent_def l1Keys_def)

lemma fold_deleteLocal_config [simp]: "config (fold (\<lambda>k c. deleteLocal c k) ks c) = config c"
  by (induction ks arbitrary: c) auto

lemma fold_deleteLocal_consistent:
  assumes "l1Consistent c" "distinct ks" "set ks \<subseteq> l1Keys c"
  shows "l1Consistent (fold (\<lambda>k c. deleteLocal c k) ks c)"
  using assms
proof (induction ks arbitrary: c)
  case Nil
  then show ?case by simp
next
  case (Cons k ks)
  have "l1Consistent (deleteLocal c k)"
    using Cons.prems by (auto intro: deleteLocal_consistent)
  moreover have "set ks \<subseteq> l1Keys (deleteLocal c k)"
    using Cons.prems by (auto simp: l1Keys_deleteLocal)
  ultimately show ?case
    using Cons.prems Cons.IH [of "deleteLocal c k"] by simp
qed

lemma demoteLoop_config [simp]: "config (demoteLoop c now ks) = config c"
  by (induction ks arbitrary: c) (auto split: option.splits)

lemma demoteLoop_consistent: "l1Consistent c \<Longrightarrow> l1Consistent (demoteLoop c now ks)"
proof (induction ks arbitrary: c)
  case Nil
  then show ?case by simp
next
  case (Cons k ks)
  show ?case
  proof (cases "map_of (localCache c) k")
    case None
    then show ?thesis using Cons by simp
  next
    case (Some item)
    then have "k \<in> l1Keys (spill c now k item)"
      by (simp add: l1Keys_def map_of_l1Keys [unfolded l1Keys_def])
    then have "l1Consistent (deleteLocal (spill c now k item) k)"
      using Cons.prems by (intro deleteLocal_consistent) simp_all
    then show ?thesis using Some Cons.IH by simp
  qed
qed

lemma distinct_keys_syncMapRange:
  "distinct (map fst (syncMapRange rk m)) = distinct (map fst m)"
proof -
  have "mset (map fst (syncMapRange rk m)) = mset (map fst m)"
    by (simp add: syncMapRange_def)
  then show ?thesis by (rule mset_eq_imp_distinct_iff)
qed

lemma sweep_config [simp]: "config (sweep c now rk) = config c"
  by (simp add: sweep_def Let_def)

lemma sweep_consistent:
  assumes "l1Consistent c"
  shows "l1Consistent (sweep c now rk)"
proof -
  let ?ks = "map fst (filter (\<lambda>kv. ExpireTime (snd kv) \<le> now) (syncMapRange rk (localCache c)))"
  have "distinct (map fst (syncMapRange rk (localCache c)))"
    using assms by (simp add: distinct_keys_syncMapRange l1Consistent_def)
  then have "distinct ?ks" by (rule distinct_map_filter)
  moreover have "set ?ks \<subseteq> l1Keys c"
    by (auto simp: l1Keys_def syncMapRange_def)
  ultimately have "l1Consistent (fold (\<lambda>k c. deleteLocal c k) ?ks c)"
    by (rule fold_deleteLocal_consistent [OF assms])
  then show ?thesis
    by (simp add: sweep_def Let_def demoteLoop_consistent)
qed

lemma cleanupExpiredItems_unfold:
  "cleanupExpiredItems c now rk =
     (if MaxL1Size (config c) > 0 \<and> itemCount (sweep c now rk) > MaxL1Size (config c)
      then evictLRU (sweep c now rk) now rk (itemCount (sweep c now rk) - MaxL1Size (config c))
      else sweep c now rk)"
  by (simp add: cleanupExpiredItems_def Let_def)

lemma cleanupExpiredItems_consistent:
  "l1Consistent c \<Longrightarrow> l1Consistent (cleanupExpiredItems c now rk)"
  by (simp add: cleanupExpiredItems_unfold sweep_consistent evictLRU_consistent)

lemma evictLRU_bound:
  assumes "l1Consistent c" "itemCount c - bound \<le> n" "0 \<le> bound"
  shows "itemCount (evictLRU c now rk n) \<le> bound"
proof -
  have "itemCount c = int (length (localCache c))"
    using assms(1) by (simp add: l1Consistent_iff)
  then show ?thesis
    using assms(2,3) by (auto simp: evictLRU_itemCount min_def)
qed

lemma capCheck_bound:
  assumes "l1Consistent c" "0 < MaxL1Size (config c)" "itemCount c \<le> MaxL1Size (config c) + 1"
  shows "itemCount (capCheck c now rk) \<le> MaxL1Size (config c)"
  using assms evictLRU_bound [OF assms(1), of "MaxL1Size (config c)" 1 now rk]
  by (auto simp: capCheck_def)

lemma cacheCap_eq:
  "cacheCap =
     \<lparr>config = \<lparr>EnableL1Cache = True, EnableL2Cache = False, L1TTL = 0, L2TTL = 0,
                 MaxL1Size = 1, RedisOptions = None,
                 PromotionStrategy = Some (FrequencyBasedStrategy 3 60 0),
                 DemotionStrategy = Some (FrequencyBasedStrategy 0 0 300)\<rparr>,
      localCache = [(''a'', \<lparr>Value = GoInt 1, ExpireTime = 100, CreateTime = 0, AccessTime = 0,
                             AccessCount = 0\<rparr>)],
      redisClient = False, itemCount = 1, cleanupTicker = True, stopCleanupClosed = False,
      redisLog = []\<rparr>"
  by (simp add: cacheCap_def Set_def capCheck_def newCache_def cfgL1_def cfgNone_def Let_def
      i64_def NewFrequencyBasedStrategy_def)

lemma cacheCap_consistent: "l1Consistent cacheCap"
  by (simp add: cacheCap_def Set_consistent newCache_consistent)

section \<open>The cap on L1\<close>


lemma lookupLocal_itemCount: "itemCount (fst (lookupLocal c now key)) \<le> itemCount c"
  by (simp add: lookupLocal_def split: option.splits)

lemma promote_bound:
  assumes "l1Consistent c" "EnableL1Cache (config c) \<Longrightarrow> key \<notin> l1Keys c"
    and "0 < MaxL1Size (config c)" "itemCount c \<le> MaxL1Size (config c)"
  shows "itemCount (promote c now rk key item) \<le> MaxL1Size (config c)"
proof (cases "EnableL1Cache (config c) \<and> ShouldPromote (promotion c) item now")
  case True
  let ?c = "c\<lparr>localCache := AList.update key item (localCache c), itemCount := itemCount c + 1\<rparr>"
  from True assms(2) have "key \<notin> l1Keys c" by simp
  then have "l1Consistent ?c"
    by (intro store_consistent [OF assms(1), of _ key item]) simp_all
  then have "itemCount (capCheck ?c now rk) \<le> MaxL1Size (config ?c)"
    using assms(3,4) by (intro capCheck_bound) simp_all
  then show ?thesis using True by (simp add: promote_def)
next
  case False
  then show ?thesis using assms(4) by (auto simp: promote_def)
qed

lemma Set_bound:
  assumes "l1Consistent c" "0 < MaxL1Size (config c)" "itemCount c \<le> MaxL1Size (config c)"
  shows "itemCount (fst (Set c now rk key val ttl set_ok)) \<le> MaxL1Size (config c)"
proof -
  have "itemCount (capCheck c' now rk) \<le> MaxL1Size (config c)"
    if "localCache c' = AList.update key item (localCache c)"
      and "itemCount c' = (if key \<in> l1Keys c then itemCount c else itemCount c + 1)"
      and "config c' = config c"
    for c' item
    using capCheck_bound [OF store_consistent [OF assms(1) that(1,2)], of now rk] assms(2,3) that
    by (simp split: if_splits)
  then show ?thesis
    using assms(3) by (auto simp: Set_def Let_def map_of_None_l1Keys split: option.splits)
qed

lemma Get_bound:
  assumes "l1Consistent c" "0 < MaxL1Size (config c)" "itemCount c \<le> MaxL1Size (config c)"
  shows "itemCount (fst (Get c now rk key get_reply)) \<le> MaxL1Size (config c)"
proof -
  obtain c1 r where l: "lookupLocal c now key = (c1, r)" by (cases "lookupLocal c now key")
  have c1: "l1Consistent c1" and cfg: "config c1 = config c"
    and cnt: "itemCount c1 \<le> MaxL1Size (config c)"
    using lookupLocal_consistent [OF assms(1), of now key] lookupLocal_config [of c now key]
      lookupLocal_itemCount [of c now key] assms(3) l
    by simp_all
  show ?thesis
  proof (cases r)
    case (Some item)
    then show ?thesis using cnt by (simp add: Get_def l)
  next
    case None
    then have "EnableL1Cache (config c) \<Longrightarrow> key \<notin> l1Keys c1"
      using lookupLocal_absent [of c now key] l by simp
    then have p: "itemCount (promote (c1\<lparr>redisLog := x\<rparr>) now rk key item) \<le> MaxL1Size (config c)"
      for x item
      using c1 cfg cnt assms(2)
        promote_bound [of "c1\<lparr>redisLog := x\<rparr>" key now rk item] by simp
    show ?thesis
      using cnt p None
      by (simp add: Get_def l Let_def split: redis_result.splits option.splits)
  qed
qed

lemma GetWithTTL_bound:
  assumes "l1Consistent c" "0 < MaxL1Size (config c)" "itemCount c \<le> MaxL1Size (config c)"
  shows "itemCount (fst (GetWithTTL c now rk key ttl_reply get_reply)) \<le> MaxL1Size (config c)"
proof -
  obtain c1 r where l: "lookupLocal c now key = (c1, r)" by (cases "lookupLocal c now key")
  have c1: "l1Consistent c1" and cfg: "config c1 = config c"
    and cnt: "itemCount c1 \<le> MaxL1Size (config c)"
    using lookupLocal_consistent [OF assms(1), of now key] lookupLocal_config [of c now key]
      lookupLocal_itemCount [of c now key] assms(3) l
    by simp_all
  show ?thesis
  proof (cases r)
    case (Some item)
    then show ?thesis using cnt by (simp add: GetWithTTL_def l)
  next
    case None
    then have "EnableL1Cache (config c) \<Longrightarrow> key \<notin> l1Keys c1"
      using lookupLocal_absent [of c now key] l by simp
    then have p: "itemCount (promote (c1\<lparr>redisLog := x\<rparr>) now rk key item) \<le> MaxL1Size (config c)"
      for x item
      using c1 cfg cnt assms(2)
        promote_bound [of "c1\<lparr>redisLog := x\<rparr>" key now rk item] by simp
    show ?thesis
      using cnt p None
      by (simp add: GetWithTTL_def l Let_def split: redis_result.splits option.splits)
  qed
qed

lemma cleanupExpiredItems_bound:
  assumes "l1Consistent c" "0 < MaxL1Size (config c)"
  shows "itemCount (cleanupExpiredItems c now rk) \<le> MaxL1Size (config c)"
proof -
  have s: "l1Consistent (sweep c now rk)"
    using assms(1) by (rule sweep_consistent)
  have "itemCount (evictLRU (sweep c now rk) now rk
          (itemCount (sweep c now rk) - MaxL1Size (config c))) \<le> MaxL1Size (config c)"
    using assms(2) by (intro evictLRU_bound [OF s]) simp_all
  then show ?thesis
    using assms(2) by (auto simp: cleanupExpiredItems_unfold)
qed

lemma Set_config [simp]: "config (fst (Set c now rk key val ttl set_ok)) = config c"
  by (simp add: Set_def Let_def split: option.splits)

lemma promote_config [simp]: "config (promote c now rk key item) = config c"
  by (simp add: promote_def)

lemma Get_config [simp]: "config (fst (Get c now rk key get_reply)) = config c"
proof -
  obtain c1 r where l: "lookupLocal c now key = (c1, r)" by (cases "lookupLocal c now key")
  have "config c1 = config c" using lookupLocal_config [of c now key] l by simp
  then show ?thesis
    by (simp add: Get_def l Let_def split: option.splits redis_result.splits)
qed

lemma GetWithTTL_config [simp]:
  "config (fst (GetWithTTL c now rk key ttl_reply get_reply)) = config c"
proof -
  obtain c1 r where l: "lookupLocal c now key = (c1, r)" by (cases "lookupLocal c now key")
  have "config c1 = config c" using lookupLocal_config [of c now key] l by simp
  then show ?thesis
    by (simp add: GetWithTTL_def l Let_def split: option.splits redis_result.splits)
qed

lemma Delete_config [simp]: "config (fst (Delete c key del_ok)) = config c"
  by (simp add: Delete_def Let_def)

lemma Clear_config [simp]: "config (fst (Clear c flush_ok)) = config c"
  by (simp add: Clear_def Let_def)

lemma cleanupExpiredItems_config [simp]: "config (cleanupExpiredItems c now rk) = config c"
  by (simp add: cleanupExpiredItems_unfold)

lemma Delete_itemCount: "itemCount (fst (Delete c key del_ok)) \<le> itemCount c"
  by (simp add: Delete_def Let_def)

lemma Clear_itemCount:
  "itemCount (fst (Clear c flush_ok)) = (if EnableL1Cache (config c) then 0 else itemCount c)"
  by (simp add: Clear_def Let_def)

lemma reachable_invariant:
  "reachable c \<Longrightarrow>
     l1Consistent c \<and> (0 < MaxL1Size (config c) \<longrightarrow> itemCount c \<le> MaxL1Size (config c))"
proof (induction rule: reachable.induct)
  case (new cfg ping_ok c)
  then have "c = newCache cfg" by (rule NewMultiLevelCache_newCache)
  then show ?case by (simp add: newCache_consistent) (simp add: newCache_def)
next
  case (set c now rk key val ttl set_ok)
  then show ?case by (simp add: Set_consistent Set_bound)
next
  case (setWithExpiration c now rk key val expireTime set_ok)
  then show ?case by (simp add: SetWithExpiration_def Set_consistent Set_bound)
next
  case (get c now rk key get_reply)
  then show ?case by (simp add: Get_consistent Get_bound)
next
  case (getWithTTL c now rk key ttl_reply get_reply)
  then show ?case by (simp add: GetWithTTL_consistent GetWithTTL_bound)
next
  case (delete c key del_ok)
  then show ?case
    using Delete_itemCount [of c key del_ok] by (auto simp: Delete_consistent)
next
  case (clear c flush_ok)
  then show ?case by (simp add: Clear_consistent Clear_itemCount)
next
  case (tick c now rk)
  then show ?case by (simp add: cleanupExpiredItems_consistent cleanupExpiredItems_bound)
qed


lemma cacheCap_reachable: "reachable cacheCap"
proof -
  have "NewMultiLevelCache (cfgL1\<lparr>MaxL1Size := 1\<rparr>) True = Inr (newCache (cfgL1\<lparr>MaxL1Size := 1\<rparr>))"
    by (rule NewMultiLevelCache_succeeds) (simp add: cfgL1_def cfgNone_def)
  then have "reachable (newCache (cfgL1\<lparr>MaxL1Size := 1\<rparr>))"
    by (rule reachable.new)
  then show ?thesis
    unfolding cacheCap_def by (rule reachable.set)
qed

section \<open>The two invariants\<close>

text \<open>
  Claim C10. In sequential execution \<open>itemCount\<close> equals the number of keys the L1 map
  holds: the equality holds in every cache a sequential execution reaches, and \<open>Set\<close>,
  \<open>Get\<close>, \<open>GetWithTTL\<close>, \<open>Delete\<close>, \<open>Clear\<close> and the maintenance sweep each
  preserve it, whatever Redis replies and in whatever order \<open>Range\<close> visits the map.
\<close>

theorem l1_count_invariant:
  "(reachable c \<longrightarrow> l1Consistent c)
   \<and> (l1Consistent c \<longrightarrow>
         l1Consistent (fst (Set c now rk key val ttl set_ok))
       \<and> l1Consistent (fst (Get c now rk key get_reply))
       \<and> l1Consistent (fst (GetWithTTL c now rk key ttl_reply get_reply))
       \<and> l1Consistent (fst (Delete c key del_ok))
       \<and> l1Consistent (fst (Clear c flush_ok))
       \<and> l1Consistent (cleanupExpiredItems c now rk))"
  using reachable_invariant [of c]
  by (simp add: Set_consistent Get_consistent GetWithTTL_consistent Delete_consistent
      Clear_consistent cleanupExpiredItems_consistent)

theorem l1_count_invariant_witness:
  "reachable cacheCap \<and> l1Consistent cacheCap
   \<and> l1Consistent (fst (Set cacheCap 1 rk0 ''a'' (GoInt 2) 100 True))
   \<and> l1Consistent (fst (Get cacheCap 1 rk0 ''a'' RedisNil))
   \<and> l1Consistent (fst (GetWithTTL cacheCap 1 rk0 ''a'' RedisNil RedisNil))
   \<and> l1Consistent (fst (Delete cacheCap ''a'' True))
   \<and> l1Consistent (fst (Clear cacheCap True))
   \<and> l1Consistent (cleanupExpiredItems cacheCap 1 rk0)
   \<and> itemCount cacheCap = 1 \<and> l1Keys cacheCap = {''a''}"
proof -
  have r: "reachable cacheCap" by (rule cacheCap_reachable)
  have e: "itemCount cacheCap = 1" "l1Keys cacheCap = {''a''}"
    by (simp_all add: cacheCap_eq l1Keys_def)
  note t = l1_count_invariant [of cacheCap 1 rk0 "''a''" "GoInt 2" 100 True RedisNil RedisNil
      True True]
  from t r have h: "l1Consistent cacheCap" by blast
  from t h have "l1Consistent (fst (Set cacheCap 1 rk0 ''a'' (GoInt 2) 100 True))
       \<and> l1Consistent (fst (Get cacheCap 1 rk0 ''a'' RedisNil))
       \<and> l1Consistent (fst (GetWithTTL cacheCap 1 rk0 ''a'' RedisNil RedisNil))
       \<and> l1Consistent (fst (Delete cacheCap ''a'' True))
       \<and> l1Consistent (fst (Clear cacheCap True))
       \<and> l1Consistent (cleanupExpiredItems cacheCap 1 rk0)"
    by blast
  with r h e show ?thesis by simp
qed

text \<open>
  Claim C2. Let \<open>MaxL1Size > 0\<close>. In every cache a sequential execution reaches,
  \<open>itemCount \<le> MaxL1Size\<close>: so it is after every public operation, whose last change
  to L1 is its \<open>evictLRU\<close> call, and after every maintenance tick. More generally, in
  every cache whose \<open>itemCount\<close> agrees with the map, over the cap or not:
  \<open>itemCount \<le> MaxL1Size\<close> after a maintenance tick, after an \<open>evictLRU\<close> call that
  asks for at least the overshoot, and after \<open>Set\<close>, \<open>Get\<close> and \<open>GetWithTTL\<close>
  (with their \<open>evictLRU(1)\<close>) on a cache that was within the cap. The tick calls
  \<open>evictLRU\<close> with \<open>itemCount - MaxL1Size\<close>, both taken after the sweep, exactly
  when \<open>MaxL1Size > 0\<close> and \<open>itemCount > MaxL1Size\<close>.
\<close>

theorem cap_restored:
  assumes "0 < MaxL1Size (config c)"
  shows "(reachable c \<longrightarrow> itemCount c \<le> MaxL1Size (config c))
       \<and> (l1Consistent c \<longrightarrow>
             itemCount (cleanupExpiredItems c now rk) \<le> MaxL1Size (config c)
           \<and> (\<forall>n. itemCount c - MaxL1Size (config c) \<le> n \<longrightarrow>
                  itemCount (evictLRU c now rk n) \<le> MaxL1Size (config c))
           \<and> (itemCount c \<le> MaxL1Size (config c) \<longrightarrow>
                  itemCount (fst (Set c now rk key val ttl set_ok)) \<le> MaxL1Size (config c)
                \<and> itemCount (fst (Get c now rk key get_reply)) \<le> MaxL1Size (config c)
                \<and> itemCount (fst (GetWithTTL c now rk key ttl_reply get_reply))
                    \<le> MaxL1Size (config c)))
       \<and> cleanupExpiredItems c now rk =
           (if MaxL1Size (config c) > 0 \<and> itemCount (sweep c now rk) > MaxL1Size (config c)
            then evictLRU (sweep c now rk) now rk
                   (itemCount (sweep c now rk) - MaxL1Size (config c))
            else sweep c now rk)"
proof (intro conjI impI allI)
  assume "reachable c"
  then show "itemCount c \<le> MaxL1Size (config c)"
    using reachable_invariant [of c] assms by simp
next
  assume "l1Consistent c"
  then show "itemCount (cleanupExpiredItems c now rk) \<le> MaxL1Size (config c)"
    using assms by (rule cleanupExpiredItems_bound)
next
  fix n
  assume "l1Consistent c" "itemCount c - MaxL1Size (config c) \<le> n"
  then show "itemCount (evictLRU c now rk n) \<le> MaxL1Size (config c)"
    using assms by (intro evictLRU_bound) simp_all
next
  assume h: "l1Consistent c" "itemCount c \<le> MaxL1Size (config c)"
  show "itemCount (fst (Set c now rk key val ttl set_ok)) \<le> MaxL1Size (config c)"
    using h(1) assms h(2) by (rule Set_bound)
  show "itemCount (fst (Get c now rk key get_reply)) \<le> MaxL1Size (config c)"
    using h(1) assms h(2) by (rule Get_bound)
  show "itemCount (fst (GetWithTTL c now rk key ttl_reply get_reply)) \<le> MaxL1Size (config c)"
    using h(1) assms h(2) by (rule GetWithTTL_bound)
next
  show "cleanupExpiredItems c now rk =
           (if MaxL1Size (config c) > 0 \<and> itemCount (sweep c now rk) > MaxL1Size (config c)
            then evictLRU (sweep c now rk) now rk
                   (itemCount (sweep c now rk) - MaxL1Size (config c))
            else sweep c now rk)"
    by (rule cleanupExpiredItems_unfold)
qed

theorem cap_restored_witness:
  "0 < MaxL1Size (config cacheCap) \<and> reachable cacheCap \<and> l1Consistent cacheCap
   \<and> itemCount cacheCap \<le> MaxL1Size (config cacheCap)
   \<and> itemCount (cleanupExpiredItems cacheCap 1 rk0) \<le> 1
   \<and> itemCount (evictLRU cacheCap 1 rk0 1) \<le> 1
   \<and> itemCount (fst (Set cacheCap 1 rk0 ''b'' (GoInt 2) 100 True)) \<le> 1
   \<and> itemCount (fst (Get cacheCap 1 rk0 ''b'' RedisNil)) \<le> 1
   \<and> itemCount (fst (GetWithTTL cacheCap 1 rk0 ''b'' RedisNil RedisNil)) \<le> 1"
proof -
  have h1: "l1Consistent cacheCap" by (rule cacheCap_consistent)
  have h2: "0 < MaxL1Size (config cacheCap)" by (simp add: cacheCap_eq)
  have h4: "itemCount cacheCap - MaxL1Size (config cacheCap) \<le> 1"
    and m: "MaxL1Size (config cacheCap) = 1"
    by (simp_all add: cacheCap_eq)
  have r: "reachable cacheCap" by (rule cacheCap_reachable)
  note t = cap_restored [OF h2, of 1 rk0 "''b''" "GoInt 2" 100 True RedisNil RedisNil]
  from t r have h3: "itemCount cacheCap \<le> MaxL1Size (config cacheCap)"
    by blast
  from t h1 have a: "itemCount (cleanupExpiredItems cacheCap 1 rk0) \<le> MaxL1Size (config cacheCap)"
    by blast
  from t h1 h4 have b: "itemCount (evictLRU cacheCap 1 rk0 1) \<le> MaxL1Size (config cacheCap)"
    by blast
  from t h1 h3 have c: "itemCount (fst (Set cacheCap 1 rk0 ''b'' (GoInt 2) 100 True))
        \<le> MaxL1Size (config cacheCap)
      \<and> itemCount (fst (Get cacheCap 1 rk0 ''b'' RedisNil)) \<le> MaxL1Size (config cacheCap)
      \<and> itemCount (fst (GetWithTTL cacheCap 1 rk0 ''b'' RedisNil RedisNil))
        \<le> MaxL1Size (config cacheCap)"
    by blast
  show ?thesis
    using h1 h2 h3 r a b c by (simp only: m)
qed


section \<open>Set followed by Get\<close>

lemma map_of_filter_key:
  "map_of (filter (\<lambda>kv. Q (fst kv)) l) k = (if Q k then map_of l k else None)"
  by (induction l) auto

lemma set_update_other:
  "kv \<in> set l \<Longrightarrow> fst kv \<noteq> key \<Longrightarrow> kv \<in> set (AList.update key item l)"
  by (induction l) auto

lemma sorted_hd_least:
  assumes "sorted (map f xs)" "y \<in> set xs"
  shows "f (hd xs) \<le> f y"
  using assms by (cases xs) auto

lemma evictLRU_one_keeps:
  assumes d: "distinct (map fst (localCache c))"
    and k: "map_of (localCache c) key = Some item"
    and o: "kv \<in> set (localCache c)" "AccessTime (snd kv) < AccessTime item"
  shows "map_of (localCache (evictLRU c now rk 1)) key = Some item"
proof -
  let ?xs = "lruOrder rk (localCache c)"
  have ne: "?xs \<noteq> []" using o(1) by (auto simp flip: set_empty)
  then have t: "take (Suc 0) ?xs = [hd ?xs]" by (cases ?xs) simp_all
  have "AccessTime (snd (hd ?xs)) \<le> AccessTime (snd kv)"
    using sorted_hd_least [OF sorted_lruOrder, of kv rk "localCache c"] o(1) by simp
  then have lt: "AccessTime (snd (hd ?xs)) < AccessTime item" using o(2) by simp
  have "hd ?xs \<in> set (localCache c)" using ne hd_in_set [OF ne] by simp
  then have "map_of (localCache c) (fst (hd ?xs)) = Some (snd (hd ?xs))"
    using d by simp
  with k lt have "fst (hd ?xs) \<noteq> key" by auto
  moreover have "0 < length (localCache c)" using o(1) by auto
  then have "min 1 (int (length (localCache c))) = 1" by linarith
  then have "nat (min 1 (int (length (localCache c)))) = Suc 0" by simp
  ultimately have "key \<notin> fst ` set (take (nat (min 1 (int (length (localCache c))))) ?xs)"
    by (simp add: t)
  then show ?thesis
    using map_of_filter_key [of "\<lambda>k. k \<notin> fst ` set (take (nat (min 1 (int (length (localCache c))))) ?xs)"
        "localCache c" key]
    by (simp add: evictLRU_unfold evictLoop_localCache k)
qed

lemma capCheck_keeps:
  assumes "distinct (map fst (localCache c))" "map_of (localCache c) key = Some item"
    and "\<not> (MaxL1Size (config c) > 0 \<and> itemCount c > MaxL1Size (config c))
         \<or> (\<exists>kv \<in> set (localCache c). AccessTime (snd kv) < AccessTime item)"
  shows "map_of (localCache (capCheck c now rk)) key = Some item"
proof (cases "MaxL1Size (config c) > 0 \<and> itemCount c > MaxL1Size (config c)")
  case False
  then show ?thesis using assms(2) by (auto simp: capCheck_def)
next
  case True
  with assms(3) obtain kv where "kv \<in> set (localCache c)" "AccessTime (snd kv) < AccessTime item"
    by blast
  then have "map_of (localCache (evictLRU c now rk 1)) key = Some item"
    by (rule evictLRU_one_keeps [OF assms(1,2)])
  then show ?thesis using True by (simp add: capCheck_def)
qed

lemma Set_binds:
  assumes l1: "EnableL1Cache (config c)"
    and dk: "distinct (map fst (localCache c))"
    and keep: "MaxL1Size (config c) \<le> 0
               \<or> itemCount c + (if key \<in> l1Keys c then 0 else 1) \<le> MaxL1Size (config c)
               \<or> (\<exists>kv \<in> set (localCache c). fst kv \<noteq> key \<and> AccessTime (snd kv) < setTime)"
  shows "map_of (localCache (fst (Set c setTime rk key val ttl set_ok))) key
         = Some \<lparr>Value = val, ExpireTime = i64 (setTime + ttl), CreateTime = setTime,
                 AccessTime = setTime, AccessCount = 0\<rparr>"
proof -
  let ?item = "\<lparr>Value = val, ExpireTime = i64 (setTime + ttl), CreateTime = setTime,
                 AccessTime = setTime, AccessCount = 0\<rparr>"
  have step: "map_of (localCache (capCheck c2 setTime rk)) key = Some ?item"
    if lc: "localCache c2 = AList.update key ?item (localCache c)"
      and ic: "itemCount c2 = itemCount c + (if key \<in> l1Keys c then 0 else 1)"
      and cf: "config c2 = config c"
    for c2
  proof (rule capCheck_keeps)
    show "distinct (map fst (localCache c2))" using dk by (simp add: lc distinct_update)
    show "map_of (localCache c2) key = Some ?item" by (simp add: lc update_conv')
    show "\<not> (MaxL1Size (config c2) > 0 \<and> itemCount c2 > MaxL1Size (config c2))
         \<or> (\<exists>kv \<in> set (localCache c2). AccessTime (snd kv) < AccessTime ?item)"
    proof (cases "MaxL1Size (config c2) > 0 \<and> itemCount c2 > MaxL1Size (config c2)")
      case False
      then show ?thesis by blast
    next
      case True
      then have "MaxL1Size (config c) > 0"
        "itemCount c + (if key \<in> l1Keys c then 0 else 1) > MaxL1Size (config c)"
        by (simp_all only: ic cf)
      with keep obtain kv where kv: "kv \<in> set (localCache c)" "fst kv \<noteq> key"
        "AccessTime (snd kv) < setTime" by fastforce
      have "kv \<in> set (localCache c2)" using kv(1,2) by (simp add: lc set_update_other)
      moreover have "AccessTime (snd kv) < AccessTime ?item" using kv(3) by simp
      ultimately show ?thesis by blast
    qed
  qed
  show ?thesis
  proof (cases "map_of (localCache c) key = None")
    case True
    then have "key \<notin> l1Keys c" by (simp add: map_of_None_l1Keys)
    then have "map_of (localCache (capCheck
        (c\<lparr>itemCount := itemCount c + 1, localCache := AList.update key ?item (localCache c)\<rparr>)
        setTime rk)) key = Some ?item"
      by (intro step) simp_all
    then show ?thesis
      using l1 True by (auto simp: Set_def Let_def split: option.splits)
  next
    case False
    then have "key \<in> l1Keys c" by (simp add: map_of_None_l1Keys)
    then have "map_of (localCache (capCheck
        (c\<lparr>localCache := AList.update key ?item (localCache c)\<rparr>) setTime rk)) key = Some ?item"
      by (intro step) simp_all
    then show ?thesis
      using l1 False by (auto simp: Set_def Let_def split: option.splits)
  qed
qed

lemma Get_l1_hit:
  assumes "EnableL1Cache (config c)" "map_of (localCache c) key = Some item" "now < ExpireTime item"
  shows "snd (Get c now rk key get_reply) = Some (Value item)"
  using assms by (simp add: Get_def lookupLocal_def touch_def)

lemma Get_l1_expired:
  assumes "EnableL1Cache (config c)" "map_of (localCache c) key = Some item" "ExpireTime item \<le> now"
    and "EnableL2Cache (config c) \<Longrightarrow> \<not> liveReply now get_reply"
  shows "snd (Get c now rk key get_reply) = None
       \<and> key \<notin> l1Keys (fst (Get c now rk key get_reply))
       \<and> itemCount (fst (Get c now rk key get_reply)) = itemCount c - 1"
  using assms
  by (auto simp: Get_def lookupLocal_def liveReply_def Let_def l1Keys_deleteLocal
      split: redis_result.splits option.splits)

text \<open>
  Claim C1 says that after \<open>Set(k, v, ttl)\<close> with \<open>ttl > 0\<close> a \<open>Get(k)\<close> before
  \<open>set_time + ttl\<close> returns the value. Two inputs where it returns a miss instead:
  an L1-only cache capped at one entry that already holds \<open>''a''\<close>, set in the same
  second, when \<open>Range\<close> visits the new key first, so that the cap check evicts the entry
  just written; and a cache with both tiers disabled.
\<close>

theorem set_then_get_counterexample:
  "snd (Get (fst (Set cacheCap 0 rkB ''b'' (GoInt 42) 5 True)) 4 rk0 ''b'' RedisNil) = None
   \<and> snd (Get (fst (Set (newCache cfgNone) 0 rk0 ''b'' (GoInt 42) 5 True)) 4 rk0 ''b'' RedisNil)
       = None"
proof -
  have "localCache (fst (Set cacheCap 0 rkB ''b'' (GoInt 42) 5 True))
        = [(''a'', \<lparr>Value = GoInt 1, ExpireTime = 100, CreateTime = 0, AccessTime = 0,
                    AccessCount = 0\<rparr>)]"
    by (simp add: cacheCap_eq Set_def capCheck_def Let_def evictLRU_unfold evictLoop_localCache
        lruOrder_def syncMapRange_def rkB_def)
  then have 1: "snd (Get (fst (Set cacheCap 0 rkB ''b'' (GoInt 42) 5 True)) 4 rk0 ''b'' RedisNil)
      = None"
    by (simp add: Get_def lookupLocal_def cacheCap_eq)
  have 2: "snd (Get (fst (Set (newCache cfgNone) 0 rk0 ''b'' (GoInt 42) 5 True)) 4 rk0 ''b''
      RedisNil) = None"
    by (simp add: Get_def lookupLocal_def Set_def newCache_def cfgNone_def)
  from 1 2 show ?thesis by simp
qed

text \<open>
  Claim C1, amended. Let L1 be enabled and \<open>ttl > 0\<close>, and let the \<open>Set\<close> not evict
  its own entry: the cap is off, or the insertion does not exceed it, or some other L1
  entry has an older \<open>access_time\<close>. Then, right after \<open>Set(k, v, ttl)\<close>, a
  \<open>Get(k)\<close> at \<open>now < set_time + ttl\<close> returns \<open>v\<close>, whatever Redis replies; and a
  \<open>Get(k)\<close> at \<open>now \<ge> set_time + ttl\<close> returns a miss, removes the entry and lowers
  \<open>itemCount\<close> by one, provided L2 is disabled or its reply carries no live envelope.
  The sum \<open>set_time + ttl\<close> is the source's \<open>int64\<close> addition. The witness is
  Scenario B, where \<open>itemCount\<close> ends at 0.
\<close>

theorem set_then_get:
  assumes l1: "EnableL1Cache (config c)"
    and dk: "distinct (map fst (localCache c))"
    and ttl: "0 < ttl"
    and keep: "MaxL1Size (config c) \<le> 0
               \<or> itemCount c + (if key \<in> l1Keys c then 0 else 1) \<le> MaxL1Size (config c)
               \<or> (\<exists>kv \<in> set (localCache c). fst kv \<noteq> key \<and> AccessTime (snd kv) < setTime)"
  shows "(now < i64 (setTime + ttl) \<longrightarrow>
            snd (Get (fst (Set c setTime rk key val ttl set_ok)) now rk' key get_reply) = Some val)
       \<and> (i64 (setTime + ttl) \<le> now
            \<and> (EnableL2Cache (config c) \<longrightarrow> \<not> liveReply now get_reply) \<longrightarrow>
            snd (Get (fst (Set c setTime rk key val ttl set_ok)) now rk' key get_reply) = None
          \<and> key \<notin> l1Keys (fst (Get (fst (Set c setTime rk key val ttl set_ok)) now rk' key
                                 get_reply))
          \<and> itemCount (fst (Get (fst (Set c setTime rk key val ttl set_ok)) now rk' key get_reply))
              = itemCount (fst (Set c setTime rk key val ttl set_ok)) - 1)"
proof -
  let ?s = "fst (Set c setTime rk key val ttl set_ok)"
  let ?item = "\<lparr>Value = val, ExpireTime = i64 (setTime + ttl), CreateTime = setTime,
                 AccessTime = setTime, AccessCount = 0\<rparr>"
  have b: "map_of (localCache ?s) key = Some ?item"
    using l1 dk keep by (rule Set_binds)
  have e: "EnableL1Cache (config ?s)" using l1 by simp
  have hit: "snd (Get ?s now rk' key get_reply) = Some val" if "now < i64 (setTime + ttl)"
    using Get_l1_hit [OF e b, of now rk' get_reply] that by simp
  have miss: "snd (Get ?s now rk' key get_reply) = None
       \<and> key \<notin> l1Keys (fst (Get ?s now rk' key get_reply))
       \<and> itemCount (fst (Get ?s now rk' key get_reply)) = itemCount ?s - 1"
    if "i64 (setTime + ttl) \<le> now" "EnableL2Cache (config c) \<longrightarrow> \<not> liveReply now get_reply"
    using Get_l1_expired [OF e b, of now get_reply rk'] that by simp
  show ?thesis using hit miss by blast
qed

theorem set_then_get_witness:
  "EnableL1Cache (config (newCache cfgL1)) \<and> distinct (map fst (localCache (newCache cfgL1)))
   \<and> (0::int) < 5 \<and> MaxL1Size (config (newCache cfgL1)) \<le> 0 \<and> i64 (0 + 5) = 5
   \<and> snd (Get (fst (Set (newCache cfgL1) 0 rk0 ''b'' (GoInt 42) 5 True)) 4 rk0 ''b'' RedisNil)
       = Some (GoInt 42)
   \<and> snd (Get (fst (Set (newCache cfgL1) 0 rk0 ''b'' (GoInt 42) 5 True)) 6 rk0 ''b'' RedisNil)
       = None
   \<and> itemCount (fst (Get (fst (Set (newCache cfgL1) 0 rk0 ''b'' (GoInt 42) 5 True)) 6 rk0 ''b''
                        RedisNil)) = 0"
proof -
  have h1: "EnableL1Cache (config (newCache cfgL1))"
    and h2: "distinct (map fst (localCache (newCache cfgL1)))"
    and h3: "(0::int) < 5"
    and h5: "MaxL1Size (config (newCache cfgL1)) \<le> 0"
    by (simp_all add: newCache_def cfgL1_def cfgNone_def)
  have h4: "i64 (0 + 5) = 5" by (simp add: i64_def)
  have h6: "MaxL1Size (config (newCache cfgL1)) \<le> 0
      \<or> itemCount (newCache cfgL1) + (if ''b'' \<in> l1Keys (newCache cfgL1) then 0 else 1)
          \<le> MaxL1Size (config (newCache cfgL1))
      \<or> (\<exists>kv \<in> set (localCache (newCache cfgL1)). fst kv \<noteq> ''b'' \<and> AccessTime (snd kv) < 0)"
    using h5 by simp
  have n: "\<not> EnableL2Cache (config (newCache cfgL1))"
    by (simp add: newCache_def cfgL1_def cfgNone_def)
  have c: "itemCount (fst (Set (newCache cfgL1) 0 rk0 ''b'' (GoInt 42) 5 True)) = 1"
    by (simp add: Set_def newCache_def cfgL1_def cfgNone_def capCheck_def Let_def)
  show ?thesis
    using h1 h2 h3 h4 h5 n c
      set_then_get [OF h1 h2 h3 h6, of 4 rk0 "GoInt 42" True rk0 RedisNil]
      set_then_get [OF h1 h2 h3 h6, of 6 rk0 "GoInt 42" True rk0 RedisNil]
    by simp
qed

section \<open>Where GetWithTTL and Get agree\<close>

text \<open>
  Apart from envelopes that Redis reports as alive although their \<open>ExpireTime\<close> has
  passed, the two readers agree: when the TTL query answers a positive number and the
  envelope read from Redis, if any, is live, \<open>GetWithTTL\<close> returns the value \<open>Get\<close>
  returns and leaves the same L1 map and \<open>itemCount\<close>.
\<close>

lemma capCheck_l1_cong:
  assumes "config c = config c'" "localCache c = localCache c'" "itemCount c = itemCount c'"
  shows "localCache (capCheck c now rk) = localCache (capCheck c' now rk)
       \<and> itemCount (capCheck c now rk) = itemCount (capCheck c' now rk)"
  using assms
  by (simp add: capCheck_def evictLRU_unfold evictLoop_localCache evictLoop_itemCount)

lemma promote_l1_cong:
  assumes "config c = config c'" "localCache c = localCache c'" "itemCount c = itemCount c'"
  shows "localCache (promote c now rk key item) = localCache (promote c' now rk key item)
       \<and> itemCount (promote c now rk key item) = itemCount (promote c' now rk key item)"
proof -
  have "promotion c = promotion c'" using assms(1) by (simp add: promotion_def)
  moreover have
    "localCache (capCheck (c\<lparr>localCache := AList.update key item (localCache c),
                             itemCount := itemCount c + 1\<rparr>) now rk)
       = localCache (capCheck (c'\<lparr>localCache := AList.update key item (localCache c'),
                                 itemCount := itemCount c' + 1\<rparr>) now rk)
     \<and> itemCount (capCheck (c\<lparr>localCache := AList.update key item (localCache c),
                             itemCount := itemCount c + 1\<rparr>) now rk)
       = itemCount (capCheck (c'\<lparr>localCache := AList.update key item (localCache c'),
                                 itemCount := itemCount c' + 1\<rparr>) now rk)"
    using assms by (intro capCheck_l1_cong) simp_all
  ultimately show ?thesis using assms by (simp add: promote_def)
qed

lemma getWithTTL_agrees_with_get:
  assumes "0 < ttl"
    and "\<And>jsonData env. get_reply = RedisOk jsonData \<Longrightarrow> Unmarshal jsonData = Some env
           \<Longrightarrow> ExpireTime env > now"
  shows "map_option fst (snd (GetWithTTL c now rk key (RedisOk ttl) get_reply))
           = snd (Get c now rk key get_reply)
       \<and> localCache (fst (GetWithTTL c now rk key (RedisOk ttl) get_reply))
           = localCache (fst (Get c now rk key get_reply))
       \<and> itemCount (fst (GetWithTTL c now rk key (RedisOk ttl) get_reply))
           = itemCount (fst (Get c now rk key get_reply))"
proof -
  obtain c1 r where l: "lookupLocal c now key = (c1, r)" by (cases "lookupLocal c now key")
  have p: "localCache (promote (c1\<lparr>redisLog := x\<rparr>) now rk key item)
             = localCache (promote (c1\<lparr>redisLog := y\<rparr>) now rk key item)
         \<and> itemCount (promote (c1\<lparr>redisLog := x\<rparr>) now rk key item)
             = itemCount (promote (c1\<lparr>redisLog := y\<rparr>) now rk key item)" for x y item
    by (intro promote_l1_cong) simp_all
  show ?thesis
    using assms p
    by (cases r; cases get_reply)
      (auto simp: GetWithTTL_def Get_def l Let_def split: option.splits)
qed


end
